theory Spec2Isabelle
  imports Complex_Main "HOL-Library.Log_Nat"
begin

section \<open>JavaScript numbers\<close>

text \<open>
  A JavaScript number is an IEEE 754 binary64 value. The model keeps the three
  non-finite values apart and carries a finite value as the rational it denotes.
  Every arithmetic operation computes the exact result and rounds it with \<open>rnd\<close>:
  to the nearest binary64 value, ties to the even significand, with gradual
  underflow below \<open>2 powi (-1022)\<close> and overflow to an infinity from
  \<open>2 ^ 1024\<close> on.

  The two zeros are one value \<open>Fin 0\<close>. The sign of a zero is observable only
  through a division by it, and the divisors of \<open>server.js\<close> are the literals
  \<open>1024\<close> and \<open>100\<close>, \<open>cpus.length\<close>, \<open>totalDifference\<close> (a difference of two
  averages of non-negative ticks) and \<open>totalMemGB\<close> (\<open>Math.round\<close> of a
  non-negative value, over 100): none of them is a negative zero.
\<close>

datatype jsnum = Fin rat | PInf | NInf | NaN

definition ilog2 :: "rat \<Rightarrow> int" where
  \<comment> \<open>for \<open>0 < x\<close>: the \<open>k\<close> with \<open>2 powi k \<le> x < 2 powi (k + 1)\<close>\<close>
  "ilog2 x = (if 1 \<le> x then bitlen \<lfloor>x\<rfloor> - 1 else - bitlen (\<lceil>1 / x\<rceil> - 1))"

definition round_half_even :: "rat \<Rightarrow> int" where
  "round_half_even y =
     (let f = \<lfloor>y\<rfloor>; d = y - of_int f
      in if d < 1 / 2 then f
         else if 1 / 2 < d then f + 1
         else if even f then f else f + 1)"

definition ulp_exp :: "rat \<Rightarrow> int" where
  \<comment> \<open>exponent of the unit in the last place of the binade of \<open>x\<close> (53 bits, subnormals from \<open>-1074\<close>)\<close>
  "ulp_exp x = max (ilog2 x - 52) (- 1074)"

definition rnd_mag :: "rat \<Rightarrow> rat" where
  \<comment> \<open>for \<open>0 < x\<close>: the nearest multiple of the unit in the last place\<close>
  "rnd_mag x = of_int (round_half_even (x / 2 powi ulp_exp x)) * 2 powi ulp_exp x"

definition overflow_threshold :: rat where
  \<comment> \<open>a rounded magnitude from here on is an infinity\<close>
  "overflow_threshold = 2 ^ 1024"

definition rnd :: "rat \<Rightarrow> jsnum" where
  "rnd x =
     (if x = 0 then Fin 0
      else if 0 < x then (if overflow_threshold \<le> rnd_mag x then PInf else Fin (rnd_mag x))
      else (if overflow_threshold \<le> rnd_mag (- x) then NInf else Fin (- rnd_mag (- x))))"

definition num :: "nat \<Rightarrow> jsnum" where
  \<comment> \<open>the number the host hands over for an unsigned integer quantity\<close>
  "num n = rnd (of_nat n)"

definition lit :: "rat \<Rightarrow> jsnum" where
  \<comment> \<open>a decimal literal of the source text\<close>
  "lit q = rnd q"

fun is_neg :: "jsnum \<Rightarrow> bool" where
  "is_neg (Fin x) = (x < 0)"
| "is_neg NInf = True"
| "is_neg PInf = False"
| "is_neg NaN = False"

fun is_inf :: "jsnum \<Rightarrow> bool" where
  "is_inf PInf = True"
| "is_inf NInf = True"
| "is_inf (Fin x) = False"
| "is_inf NaN = False"

fun is_finite :: "jsnum \<Rightarrow> bool" where
  "is_finite (Fin x) = True"
| "is_finite PInf = False"
| "is_finite NInf = False"
| "is_finite NaN = False"

definition signed_inf :: "bool \<Rightarrow> jsnum" where
  "signed_inf neg = (if neg then NInf else PInf)"

fun jneg :: "jsnum \<Rightarrow> jsnum" where
  "jneg (Fin x) = Fin (- x)"
| "jneg PInf = NInf"
| "jneg NInf = PInf"
| "jneg NaN = NaN"

fun jadd :: "jsnum \<Rightarrow> jsnum \<Rightarrow> jsnum" where
  "jadd (Fin x) (Fin y) = rnd (x + y)"
| "jadd a b =
     (if a = NaN \<or> b = NaN then NaN
      else if is_inf a \<and> is_inf b \<and> a \<noteq> b then NaN
      else if is_inf a then a else b)"

definition jsub :: "jsnum \<Rightarrow> jsnum \<Rightarrow> jsnum" where
  "jsub a b = jadd a (jneg b)"

fun jmul :: "jsnum \<Rightarrow> jsnum \<Rightarrow> jsnum" where
  "jmul (Fin x) (Fin y) = rnd (x * y)"
| "jmul a b =
     (if a = NaN \<or> b = NaN then NaN
      else if a = Fin 0 \<or> b = Fin 0 then NaN
      else signed_inf (is_neg a \<noteq> is_neg b))"

fun jdiv :: "jsnum \<Rightarrow> jsnum \<Rightarrow> jsnum" where
  "jdiv (Fin x) (Fin y) =
     (if y = 0 then (if x = 0 then NaN else signed_inf (x < 0)) else rnd (x / y))"
| "jdiv a b =
     (if a = NaN \<or> b = NaN then NaN
      else if is_inf a \<and> is_inf b then NaN
      else if is_inf a then signed_inf (is_neg a \<noteq> is_neg b)
      else Fin 0)"

fun jle :: "jsnum \<Rightarrow> jsnum \<Rightarrow> bool" where
  \<comment> \<open>\<open>a <= b\<close>: false as soon as one side is NaN\<close>
  "jle (Fin x) (Fin y) = (x \<le> y)"
| "jle a b = (a \<noteq> NaN \<and> b \<noteq> NaN \<and> (a = NInf \<or> b = PInf))"

fun Math_floor :: "jsnum \<Rightarrow> jsnum" where
  "Math_floor (Fin x) = Fin (of_int \<lfloor>x\<rfloor>)"
| "Math_floor a = a"

fun Math_round :: "jsnum \<Rightarrow> jsnum" where
  \<comment> \<open>the nearest integer, a tie going up: \<open>floor (x + 1/2)\<close>, exactly\<close>
  "Math_round (Fin x) = Fin (of_int \<lfloor>x + 1 / 2\<rfloor>)"
| "Math_round a = a"

definition Math_max :: "jsnum \<Rightarrow> jsnum \<Rightarrow> jsnum" where
  "Math_max a b = (if a = NaN \<or> b = NaN then NaN else if jle a b then b else a)"

definition Math_min :: "jsnum \<Rightarrow> jsnum \<Rightarrow> jsnum" where
  "Math_min a b = (if a = NaN \<or> b = NaN then NaN else if jle a b then a else b)"

fun nonneg :: "jsnum \<Rightarrow> bool" where
  \<comment> \<open>a number that is not below zero, the positive infinity included\<close>
  "nonneg (Fin x) = (0 \<le> x)"
| "nonneg PInf = True"
| "nonneg NInf = False"
| "nonneg NaN = False"

fun nonpos :: "jsnum \<Rightarrow> bool" where
  \<comment> \<open>a number that is not above zero, the negative infinity included\<close>
  "nonpos (Fin x) = (x \<le> 0)"
| "nonpos NInf = True"
| "nonpos PInf = False"
| "nonpos NaN = False"

definition or_zero :: "jsnum \<Rightarrow> jsnum" where
  \<comment> \<open>\<open>x || 0\<close>: NaN and zero are the falsy numbers\<close>
  "or_zero a = (if a = NaN \<or> a = Fin 0 then Fin 0 else a)"

section \<open>CPU sampler\<close>

text \<open>One entry of \<open>os.cpus()\<close>, reduced to its \<open>times\<close> object; the fields are in
  the order in which \<open>for (type in cpu.times)\<close> visits them.\<close>

record cpu_times =
  user :: nat
  nice :: nat
  sys :: nat
  idle :: nat
  irq :: nat

record measure =
  idle_avg :: jsnum
  total_avg :: jsnum

definition add_ticks :: "jsnum \<Rightarrow> cpu_times \<Rightarrow> jsnum" where
  \<comment> \<open>the inner loop \<open>totalTick += cpu.times[type]\<close>\<close>
  "add_ticks totalTick c =
     jadd (jadd (jadd (jadd (jadd totalTick (num (user c))) (num (nice c))) (num (sys c)))
       (num (idle c))) (num (irq c))"

definition cpuAverage :: "cpu_times list \<Rightarrow> measure" where
  "cpuAverage cpus =
     (let totalTick = foldl add_ticks (Fin 0) cpus;
          totalIdle = foldl (\<lambda>acc c. jadd acc (num (idle c))) (Fin 0) cpus
      in \<lparr> idle_avg = jdiv totalIdle (num (length cpus)),
           total_avg = jdiv totalTick (num (length cpus)) \<rparr>)"

definition idleDifference :: "measure \<Rightarrow> measure \<Rightarrow> jsnum" where
  "idleDifference startMeasure endMeasure = jsub (idle_avg endMeasure) (idle_avg startMeasure)"

definition totalDifference :: "measure \<Rightarrow> measure \<Rightarrow> jsnum" where
  "totalDifference startMeasure endMeasure = jsub (total_avg endMeasure) (total_avg startMeasure)"

definition cpuPercentage :: "measure \<Rightarrow> measure \<Rightarrow> jsnum" where
  "cpuPercentage startMeasure endMeasure =
     jsub (Fin 100)
       (Math_floor (jdiv (jmul (Fin 100) (idleDifference startMeasure endMeasure))
                         (totalDifference startMeasure endMeasure)))"

definition getCPUUsage :: "cpu_times list \<Rightarrow> cpu_times list \<Rightarrow> jsnum" where
  \<comment> \<open>the value the promise resolves with; the two arguments are what \<open>os.cpus()\<close>
      returns before and after the one-second timer\<close>
  "getCPUUsage cpus0 cpus1 =
     Math_max (Fin 0)
       (Math_min (Fin 100) (cpuPercentage (cpuAverage cpus0) (cpuAverage cpus1)))"

definition clamp_percent :: "jsnum \<Rightarrow> jsnum" where
  \<comment> \<open>the clamping \<open>Math.max(0, Math.min(100, x))\<close> of \<open>getCPUUsage\<close>, by itself\<close>
  "clamp_percent x = Math_max (Fin 0) (Math_min (Fin 100) x)"






section \<open>Memory reader\<close>

record memory_usage =
  mem_total :: jsnum
  mem_used :: jsnum
  mem_free :: jsnum
  usagePercent :: jsnum

definition bytes_to_GB :: "nat \<Rightarrow> jsnum" where
  \<comment> \<open>\<open>Math.round(bytes / 1024 / 1024 / 1024 * 100) / 100\<close>\<close>
  "bytes_to_GB bytes =
     jdiv (Math_round (jmul (jdiv (jdiv (jdiv (num bytes) (Fin 1024)) (Fin 1024)) (Fin 1024))
                            (Fin 100)))
          (Fin 100)"

definition getMemoryUsage :: "nat \<Rightarrow> nat \<Rightarrow> memory_usage" where
  \<comment> \<open>the arguments are \<open>os.totalmem()\<close> and \<open>os.freemem()\<close>\<close>
  "getMemoryUsage totalmem freemem =
     (let totalMemGB = bytes_to_GB totalmem;
          freeMemGB = bytes_to_GB freemem;
          usedMemGB = jdiv (Math_round (jmul (jsub totalMemGB freeMemGB) (Fin 100))) (Fin 100)
      in \<lparr> mem_total = totalMemGB,
           mem_used = usedMemGB,
           mem_free = freeMemGB,
           usagePercent = Math_round (jmul (jdiv usedMemGB totalMemGB) (Fin 100)) \<rparr>)"

text \<open>
  The rounding of the specification, in exact arithmetic: a number of bytes as
  hundredths of a GB (\<open>2 ^ 30\<close> bytes), to the nearest hundredth, a half going up.
  \<open>getMemoryUsage\<close> is compared with it below.
\<close>

definition hundredths :: "nat \<Rightarrow> int" where
  "hundredths bytes = \<lfloor>(of_nat bytes * 100 / 2 ^ 30 + 1 / 2 :: rat)\<rfloor>"

text \<open>
  The percentage of the specification, in exact arithmetic: used over total, both in
  hundredths of a GB, times 100, before its rounding; and the rounding of \<open>Math.round\<close>,
  to the nearest integer, a half going up.
\<close>

definition usedPercent_exact :: "nat \<Rightarrow> nat \<Rightarrow> rat" where
  "usedPercent_exact total_bytes free_bytes =
     (of_int (hundredths total_bytes - hundredths free_bytes) / 100)
       / (of_int (hundredths total_bytes) / 100) * 100"

definition round_half_up :: "rat \<Rightarrow> int" where
  "round_half_up x = \<lfloor>x + 1 / 2\<rfloor>"

section \<open>Process collector\<close>

text \<open>
  A JavaScript string is a sequence of UTF-16 code units, here natural numbers; \<open>exec\<close>
  hands the output of the command over as such a string. \<open>str\<close> is a literal of the
  source text, which is ASCII. The white space that \<open>trim\<close> strips and that the pattern
  \<open>\\s\<close> matches is the white space and the line terminators of ECMAScript.
\<close>

type_synonym jsstring = "nat list"

definition str :: "string \<Rightarrow> jsstring" where
  "str s = map of_char s"

definition is_space :: "nat \<Rightarrow> bool" where
  "is_space c =
     (c \<in> set [0x09, 0x0A, 0x0B, 0x0C, 0x0D, 0x20, 0xA0, 0x1680, 0x2028, 0x2029, 0x202F,
                0x205F, 0x3000, 0xFEFF]
      \<or> (0x2000 \<le> c \<and> c \<le> 0x200A))"

definition trim :: "jsstring \<Rightarrow> jsstring" where
  "trim s = rev (dropWhile is_space (rev (dropWhile is_space s)))"

fun split_char :: "nat \<Rightarrow> jsstring \<Rightarrow> jsstring list" where
  \<comment> \<open>\<open>s.split(c)\<close> for a separator of one character\<close>
  "split_char c [] = [[]]"
| "split_char c (x # xs) =
     (if x = c then [] # split_char c xs
      else (case split_char c xs of [] \<Rightarrow> [[x]] | w # ws \<Rightarrow> (x # w) # ws))"

function split_ws :: "jsstring \<Rightarrow> jsstring list" where
  \<comment> \<open>\<open>s.split(/\\s+/)\<close>\<close>
  "split_ws [] = [[]]"
| "split_ws (x # xs) =
     (if is_space x then [] # split_ws (dropWhile is_space xs)
      else (case split_ws xs of [] \<Rightarrow> [[x]] | w # ws \<Rightarrow> (x # w) # ws))"
  by pat_completeness auto
termination
  by (relation "measure length") (auto simp: less_Suc_eq_le length_dropWhile_le)

function split_str :: "jsstring \<Rightarrow> jsstring \<Rightarrow> jsstring list" where
  \<comment> \<open>\<open>s.split(sep)\<close> for a separator string\<close>
  "split_str sep [] = [[]]"
| "split_str sep (x # xs) =
     (if sep \<noteq> [] \<and> take (length sep) (x # xs) = sep
      then [] # split_str sep (drop (length sep) (x # xs))
      else (case split_str sep xs of [] \<Rightarrow> [[x]] | w # ws \<Rightarrow> (x # w) # ws))"
  by pat_completeness auto
termination
  by (relation "measure (\<lambda>(sep, s). length s)") auto

definition col_or :: "jsstring list \<Rightarrow> nat \<Rightarrow> jsstring \<Rightarrow> jsstring" where
  \<comment> \<open>\<open>columns[i] || d\<close>: a missing and an empty column are falsy\<close>
  "col_or columns i d = (if i < length columns \<and> columns ! i \<noteq> [] then columns ! i else d)"

definition col_str :: "jsstring list \<Rightarrow> nat \<Rightarrow> jsstring" where
  \<comment> \<open>\<open>columns[i]\<close> as \<open>parseFloat\<close> reads it: a missing column is \<open>undefined\<close>\<close>
  "col_str columns i = (if i < length columns then columns ! i else str ''undefined'')"

record process =
  proc_id :: int
  proc_name :: jsstring
  proc_pid :: jsstring
  proc_cpu :: jsnum
  proc_memory :: jsnum
  proc_status :: jsstring

datatype exec_result = ExecError | Stdout jsstring

text \<open>
  What the host returns during one refresh of the cache: the platform, the arguments of
  the callback of \<open>exec\<close>, the library functions \<open>parseFloat\<close> and \<open>Math.random\<close>
  (\<open>random_at env k\<close> is the value of the call number \<open>k\<close>), the CPU ticks before and
  after the timer, the memory in bytes, and the clock. \<open>Date.now()\<close> is evaluated once
  for each of the five entries of \<open>simulatedProcesses\<close> (\<open>now_sim env k\<close> for the entry
  number \<open>k\<close>), once for \<open>timestamp\<close> and once for \<open>lastUpdate\<close>. The values of
  the clock are integers below \<open>2 ^ 53\<close>, on which the arithmetic of the source is exact.
\<close>

record env =
  win32 :: bool
  exec_out :: exec_result
  parseFloat :: "jsstring \<Rightarrow> jsnum"
  random_at :: "nat \<Rightarrow> jsnum"
  now_sim :: "nat \<Rightarrow> int"
  now_timestamp :: int
  now_lastUpdate :: int
  cpus_start :: "cpu_times list"
  cpus_end :: "cpu_times list"
  totalmem :: nat
  freemem :: nat

definition win_process :: "env \<Rightarrow> nat \<Rightarrow> jsstring \<Rightarrow> process" where
  "win_process env index line =
     (let columns = map (filter (\<lambda>c. c \<noteq> 0x22)) (split_str [0x22, 0x2C, 0x22] line)
      in \<lparr> proc_id = int index + 1,
           proc_name = col_or columns 0 (str ''Unknown''),
           proc_pid = col_or columns 1 (str ''0''),
           proc_cpu = jmul (random_at env (2 * index)) (Fin 30),
           proc_memory = jmul (random_at env (2 * index + 1)) (Fin 1000),
           proc_status = str ''Running'' \<rparr>)"

definition unix_process :: "env \<Rightarrow> nat \<Rightarrow> jsstring \<Rightarrow> process" where
  "unix_process env index line =
     (let columns = split_ws (trim line)
      in \<lparr> proc_id = int index + 1,
           proc_name = col_or columns 4 (str ''Unknown''),
           proc_pid = col_or columns 0 (str ''0''),
           proc_cpu = or_zero (parseFloat env (col_str columns 2)),
           proc_memory = or_zero (jmul (parseFloat env (col_str columns 3)) (Fin 10)),
           proc_status = str ''Running'' \<rparr>)"

definition parse_processes :: "env \<Rightarrow> jsstring \<Rightarrow> process list" where
  \<comment> \<open>the value of \<open>processes\<close> after the two platform branches\<close>
  "parse_processes env stdout =
     (if win32 env
      then map (\<lambda>(index, line). win_process env index line)
             (enumerate 0 (take 15 (split_char 0x0A (trim stdout))))
      else map (\<lambda>(index, line). unix_process env index line)
             (enumerate 0 (drop 1 (split_char 0x0A (trim stdout)))))"

definition simulatedProcesses :: "env \<Rightarrow> process list" where
  "simulatedProcesses env =
     [ \<lparr> proc_id = now_sim env 0, proc_name = str ''chrome.exe'', proc_pid = str ''1234'',
         proc_cpu = lit (255 / 10), proc_memory = lit (8562 / 10), proc_status = str ''Running'' \<rparr>,
       \<lparr> proc_id = now_sim env 1 + 1, proc_name = str ''node.exe'', proc_pid = str ''5678'',
         proc_cpu = lit (123 / 10), proc_memory = lit (3421 / 10), proc_status = str ''Running'' \<rparr>,
       \<lparr> proc_id = now_sim env 2 + 2, proc_name = str ''code.exe'', proc_pid = str ''9012'',
         proc_cpu = lit (87 / 10), proc_memory = lit (6234 / 10), proc_status = str ''Running'' \<rparr>,
       \<lparr> proc_id = now_sim env 3 + 3, proc_name = str ''firefox.exe'', proc_pid = str ''3456'',
         proc_cpu = lit (152 / 10), proc_memory = lit (7218 / 10), proc_status = str ''Running'' \<rparr>,
       \<lparr> proc_id = now_sim env 4 + 4, proc_name = str ''explorer.exe'', proc_pid = str ''7890'',
         proc_cpu = lit (31 / 10), proc_memory = lit (1245 / 10), proc_status = str ''Running'' \<rparr> ]"

definition getProcesses :: "env \<Rightarrow> process list" where
  \<comment> \<open>the value the promise resolves with; it never rejects. No operation of the
      \<open>try\<close> block raises on a string, so the \<open>catch\<close> branch has no counterpart.\<close>
  "getProcesses env =
     (case exec_out env of
        ExecError \<Rightarrow> []
      | Stdout stdout \<Rightarrow> simulatedProcesses env @ take 10 (parse_processes env stdout))"

section \<open>Metrics cache\<close>

record usage_snapshot =
  cpu :: jsnum
  ramTotal :: jsnum
  ramUsed :: jsnum
  ramPercent :: "jsnum option"
  timestamp :: int

record systemCache =
  usage :: usage_snapshot
  processes :: "process list"
  lastUpdate :: int

definition initialCache :: systemCache where
  "initialCache =
     \<lparr> usage = \<lparr> cpu = Fin 0, ramTotal = Fin 0, ramUsed = Fin 0, ramPercent = None,
                     timestamp = 0 \<rparr>,
       processes = [],
       lastUpdate = 0 \<rparr>"

definition updateSystemCache :: "env \<Rightarrow> systemCache \<Rightarrow> systemCache" where
  \<comment> \<open>the cache after the call; neither promise rejects and \<open>getMemoryUsage\<close> does
      not raise, so the assignment is always reached\<close>
  "updateSystemCache env cache =
     (let cpu = getCPUUsage (cpus_start env) (cpus_end env);
          processes = getProcesses env;
          memory = getMemoryUsage (totalmem env) (freemem env)
      in \<lparr> usage = \<lparr> cpu = cpu,
                       ramTotal = mem_total memory,
                       ramUsed = mem_used memory,
                       ramPercent = Some (usagePercent memory),
                       timestamp = now_timestamp env \<rparr>,
           processes = processes,
           lastUpdate = now_lastUpdate env \<rparr>)"

text \<open>
  The two read routes. \<open>now\<close> is the value of \<open>Date.now()\<close> in the staleness test,
  \<open>env\<close> what the host returns if the route refreshes. The result is the \<open>data\<close> of the
  reply (for the processes with its \<open>count\<close>) and the cache after the request.
\<close>

definition api_usage :: "int \<Rightarrow> env \<Rightarrow> systemCache \<Rightarrow> usage_snapshot \<times> systemCache" where
  "api_usage now env cache =
     (let cache' = (if now - lastUpdate cache > 3000 then updateSystemCache env cache else cache)
      in (usage cache', cache'))"

definition api_processes ::
  "int \<Rightarrow> env \<Rightarrow> systemCache \<Rightarrow> (process list \<times> nat) \<times> systemCache" where
  "api_processes now env cache =
     (let cache' = (if now - lastUpdate cache > 5000 then updateSystemCache env cache else cache)
      in ((processes cache', length (processes cache')), cache'))"

text \<open>
  The server as the event loop runs it. Between two \<open>await\<close>s a function body runs
  in one piece, so the observable steps are three. A request arrives (a read route is
  called, or the interval timer or the start-up call invokes \<open>updateSystemCache\<close>): a
  route whose staleness test fails answers at once from the cache, every other arrival
  starts a refresh, which is then in flight while \<open>Promise.all\<close> is awaited (at least
  the second of \<open>getCPUUsage\<close>). A refresh in flight completes: the lines after its
  \<open>await\<close> run and assign the new record to \<open>systemCache\<close>. The route that was
  awaiting this refresh resumes, in a later turn of the loop, and answers from the cache
  as it is then. Any number of refreshes may be in flight, they may complete in any
  order, and the routes may resume in any order. \<open>observed\<close> is what the host returns
  to a refresh, the integer of \<open>Arrives\<close> the value of \<open>Date.now()\<close> in the
  staleness test.
\<close>

datatype request = UsageRequest | ProcessesRequest | TimerRefresh

datatype reply = UsageReply usage_snapshot | ProcessesReply "process list" nat

record refresh =
  requester :: request
  observed :: env

record server =
  systemCache :: systemCache
  inflight :: "refresh list"
  resuming :: "request list"
  sent :: "reply list"

datatype event = Arrives request int env | Completes nat | Resumes nat

fun stale :: "request \<Rightarrow> int \<Rightarrow> systemCache \<Rightarrow> bool" where
  "stale UsageRequest now c = (now - lastUpdate c > 3000)"
| "stale ProcessesRequest now c = (now - lastUpdate c > 5000)"
| "stale TimerRefresh now c = True"

fun reply_to :: "request \<Rightarrow> systemCache \<Rightarrow> reply list" where
  "reply_to UsageRequest c = [UsageReply (usage c)]"
| "reply_to ProcessesRequest c = [ProcessesReply (processes c) (length (processes c))]"
| "reply_to TimerRefresh c = []"

fun step :: "server \<Rightarrow> event \<Rightarrow> server" where
  "step s (Arrives r now env) =
     (if stale r now (systemCache s)
      then s \<lparr> inflight := inflight s @ [\<lparr> requester = r, observed = env \<rparr>] \<rparr>
      else s \<lparr> sent := sent s @ reply_to r (systemCache s) \<rparr>)"
| "step s (Completes k) =
     (if k < length (inflight s)
      then (let f = inflight s ! k
            in s \<lparr> systemCache := updateSystemCache (observed f) (systemCache s),
                   inflight := take k (inflight s) @ drop (Suc k) (inflight s),
                   resuming := resuming s @ [requester f] \<rparr>)
      else s)"
| "step s (Resumes k) =
     (if k < length (resuming s)
      then s \<lparr> resuming := take k (resuming s) @ drop (Suc k) (resuming s),
               sent := sent s @ reply_to (resuming s ! k) (systemCache s) \<rparr>
      else s)"

definition run :: "event list \<Rightarrow> server" where
  "run events =
     foldl step \<lparr> systemCache = initialCache, inflight = [], resuming = [], sent = [] \<rparr> events"

text \<open>
  The observations of the refreshes a run may have started, the records these refreshes
  build (with the initial one), and the invariant: the cache is one of these
  records, whole, and every reply carries the usage or the processes of one of them.
\<close>

fun arrived :: "event list \<Rightarrow> env list" where
  "arrived [] = []"
| "arrived (Arrives r now env # es) = env # arrived es"
| "arrived (Completes k # es) = arrived es"
| "arrived (Resumes k # es) = arrived es"

definition generations :: "env list \<Rightarrow> systemCache list" where
  "generations envs = initialCache # map (\<lambda>env. updateSystemCache env initialCache) envs"

definition one_generation :: "env list \<Rightarrow> server \<Rightarrow> bool" where
  "one_generation envs s \<longleftrightarrow>
     systemCache s \<in> set (generations envs)
     \<and> (\<forall>f \<in> set (inflight s). observed f \<in> set envs)
     \<and> (\<forall>rep \<in> set (sent s). \<exists>c \<in> set (generations envs).
            rep = UsageReply (usage c) \<or> rep = ProcessesReply (processes c) (length (processes c)))"

section \<open>Concrete runs\<close>

text \<open>A run on a Unix host: two processes listed under the header, a clock that does
  not move, one core whose idle ticks grow by 800 out of 1000, 16 GiB of memory with
  4 GiB free. \<open>parseFloat_table\<close> is \<open>parseFloat\<close> on the strings of this listing.\<close>

definition ps_output :: jsstring where
  "ps_output =
     str ''    PID    PPID %CPU %MEM COMMAND'' @ [0x0A] @
     str ''    812       1  2.5  1.3 node'' @ [0x0A] @
     str ''      1       0  0.0  0.1 systemd'' @ [0x0A]"

definition parseFloat_table :: "jsstring \<Rightarrow> jsnum" where
  "parseFloat_table s =
     (if s = str ''2.5'' then Fin (5 / 2) else if s = str ''1.3'' then lit (13 / 10)
      else if s = str ''0.0'' then Fin 0 else if s = str ''0.1'' then lit (1 / 10) else NaN)"

definition cpus_before :: "cpu_times list" where
  "cpus_before = [\<lparr> user = 3000, nice = 0, sys = 1000, idle = 1000, irq = 0 \<rparr>]"

definition cpus_after :: "cpu_times list" where
  "cpus_after = [\<lparr> user = 3150, nice = 0, sys = 1050, idle = 1800, irq = 0 \<rparr>]"

definition env_unix :: env where
  "env_unix =
     \<lparr> win32 = False, exec_out = Stdout ps_output, parseFloat = parseFloat_table,
       random_at = (\<lambda>k. Fin (1 / 2)),
       now_sim = (\<lambda>k. 1700000000000), now_timestamp = 1700000000000,
       now_lastUpdate = 1700000000000,
       cpus_start = cpus_before, cpus_end = cpus_after,
       totalmem = 16 * 2 ^ 30, freemem = 4 * 2 ^ 30 \<rparr>"

text \<open>The same host when the listing command fails.\<close>

definition env_fail :: env where
  "env_fail = env_unix \<lparr> exec_out := ExecError \<rparr>"

text \<open>The same host when the clock is set back by a millisecond between the first two
  entries of \<open>simulatedProcesses\<close>.\<close>

definition env_clock_back :: env where
  "env_clock_back =
     env_unix \<lparr> now_sim := (\<lambda>k. if k = 0 then 1700000000001 else 1700000000000) \<rparr>"

text \<open>The same host when the clock passes from one millisecond to the next between
  the evaluation of \<open>timestamp\<close> and that of \<open>lastUpdate\<close>.\<close>

definition env_tick :: env where
  "env_tick = env_unix \<lparr> now_timestamp := 1700000000999, now_lastUpdate := 1700000001000 \<rparr>"

text \<open>The same host 4.1 seconds later.\<close>

definition env_later :: env where
  "env_later =
     env_unix \<lparr> now_sim := (\<lambda>k. 1700000004100), now_timestamp := 1700000004100,
                now_lastUpdate := 1700000004100 \<rparr>"

text \<open>Two requests whose refreshes overlap: the usage route is called on the fresh
  server, the processes route 600 milliseconds later while the first refresh is still
  awaited, the two refreshes complete and their routes resume one after the other, and a
  last call of the usage route finds the cache 900 milliseconds old.\<close>

definition race :: "event list" where
  "race =
     [Arrives UsageRequest 1699999998900 env_unix,
      Arrives ProcessesRequest 1699999999500 env_later,
      Completes 0,
      Resumes 0,
      Completes 0,
      Resumes 0,
      Arrives UsageRequest 1700000005000 env_later]"






section \<open>Properties of the rounding\<close>

subsection \<open>Binades\<close>

lemma powi_nat: "0 \<le> k \<Longrightarrow> (2::rat) powi k = 2 ^ nat k"
  by (simp add: power_int_def)

lemma powi_neg: "0 \<le> k \<Longrightarrow> (2::rat) powi (- k) = 1 / 2 ^ nat k"
  by (simp add: power_int_def field_simps)

lemma powi_pos [simp]: "0 < (2::rat) powi k"
  by (simp add: power_int_def)

lemma powi_mono: "j \<le> k \<Longrightarrow> (2::rat) powi j \<le> 2 powi k"
  by (rule power_int_increasing) simp_all

lemma powi_strict_mono: "j < k \<Longrightarrow> (2::rat) powi j < 2 powi k"
  by (rule power_int_strict_increasing) simp_all

lemma powi_add: "(2::rat) powi (j + k) = 2 powi j * 2 powi k"
  by (simp add: power_int_add)

lemma bitlen_rat_bounds:
  assumes "0 < n"
  shows "(2::rat) ^ nat (bitlen n - 1) \<le> of_int n"
    and "of_int n + 1 \<le> (2::rat) ^ nat (bitlen n)"
    and "1 \<le> bitlen n"
proof -
  have b: "2 ^ nat (bitlen n - 1) \<le> n" "n < 2 ^ nat (bitlen n)"
    using bitlen_bounds [OF assms] by auto
  have "(of_int (2 ^ nat (bitlen n - 1)) :: rat) \<le> of_int n"
    using b(1) by (simp only: of_int_le_iff)
  then show "(2::rat) ^ nat (bitlen n - 1) \<le> of_int n" by simp
  have "n + 1 \<le> 2 ^ nat (bitlen n)" using b(2) by simp
  then have "(of_int (n + 1) :: rat) \<le> of_int (2 ^ nat (bitlen n))"
    by (simp only: of_int_le_iff)
  then show "of_int n + 1 \<le> (2::rat) ^ nat (bitlen n)" by simp
  show "1 \<le> bitlen n" using assms by (simp add: bitlen_alt_def)
qed

lemma ilog2_bounds:
  assumes "0 < x"
  shows "2 powi (ilog2 x) \<le> x" and "x < 2 powi (ilog2 x + 1)"
proof -
  have "2 powi (ilog2 x) \<le> x \<and> x < 2 powi (ilog2 x + 1)"
  proof (cases "1 \<le> x")
    case True
    define n where "n = \<lfloor>x\<rfloor>"
    define b where "b = bitlen n"
    have nx: "of_int n \<le> x" "x < of_int n + 1" unfolding n_def by linarith+
    have npos: "0 < n" using True by (simp add: n_def)
    note bb = bitlen_rat_bounds [OF npos, folded b_def]
    have il: "ilog2 x = b - 1" using True by (simp add: ilog2_def n_def b_def)
    have p: "(2::rat) powi (b - 1) = 2 ^ nat (b - 1)" "(2::rat) powi b = 2 ^ nat b"
      using bb(3) by (simp_all add: powi_nat)
    have lo: "2 powi (b - 1) \<le> x" unfolding p using bb(1) nx(1) by linarith
    have hi: "x < 2 powi b" unfolding p using bb(2) nx(2) by linarith
    show ?thesis using lo hi il by simp
  next
    case False
    define y where "y = 1 / x"
    define n where "n = \<lceil>y\<rceil> - 1"
    define b where "b = bitlen n"
    have y1: "1 < y" using False assms by (simp add: y_def field_simps)
    have ny: "of_int n < y" "y \<le> of_int n + 1" unfolding n_def by linarith+
    have npos: "0 < n" using y1 unfolding n_def by linarith
    note bb = bitlen_rat_bounds [OF npos, folded b_def]
    have il: "ilog2 x = - b" using False by (simp add: ilog2_def n_def b_def y_def)
    have xy: "x = 1 / y" using assms by (simp add: y_def)
    have ypos: "0 < y" using y1 by simp
    have "y \<le> 2 ^ nat b" using bb(2) ny(2) by linarith
    then have "1 / 2 ^ nat b \<le> 1 / y" using ypos by (simp add: frac_le)
    then have lo: "2 powi (- b) \<le> x" using bb(3) xy by (simp add: powi_neg)
    have "2 ^ nat (b - 1) < y" using bb(1) ny(1) by linarith
    then have "1 / y < 1 / 2 ^ nat (b - 1)" by (simp add: frac_less2)
    moreover have "(2::rat) powi (- b + 1) = 1 / 2 ^ nat (b - 1)"
      using powi_neg [of "b - 1"] bb(3) by simp
    ultimately have hi: "x < 2 powi (- b + 1)" using xy by simp
    show ?thesis using lo hi il by simp
  qed
  then show "2 powi (ilog2 x) \<le> x" and "x < 2 powi (ilog2 x + 1)" by simp_all
qed

lemma ilog2_ge: "2 powi k \<le> x \<Longrightarrow> k \<le> ilog2 x"
proof (rule ccontr)
  assume a: "2 powi k \<le> x" and "\<not> k \<le> ilog2 x"
  then have "ilog2 x + 1 \<le> k" by simp
  then have "(2::rat) powi (ilog2 x + 1) \<le> 2 powi k" by (rule powi_mono)
  moreover have "0 < x" using a powi_pos [of k] by linarith
  ultimately show False using ilog2_bounds(2) [of x] a by linarith
qed

lemma ilog2_less: "0 < x \<Longrightarrow> x < 2 powi k \<Longrightarrow> ilog2 x < k"
proof (rule ccontr)
  assume a: "0 < x" "x < 2 powi k" and "\<not> ilog2 x < k"
  then have "(2::rat) powi k \<le> 2 powi (ilog2 x)" by (simp add: powi_mono)
  then show False using ilog2_bounds(1) [of x] a by linarith
qed

lemma ilog2_mono: "0 < x \<Longrightarrow> x \<le> y \<Longrightarrow> ilog2 x \<le> ilog2 y"
  using ilog2_bounds(1) [of x] ilog2_ge [of "ilog2 x" y] by linarith

subsection \<open>Rounding to the nearest multiple of the unit in the last place\<close>

lemma rhe_of_int [simp]: "round_half_even (of_int n) = n"
  by (simp add: round_half_even_def)

lemma rhe_bounds: "\<lfloor>y\<rfloor> \<le> round_half_even y" "round_half_even y \<le> \<lfloor>y\<rfloor> + 1"
  by (simp_all add: round_half_even_def Let_def)

lemma rhe_mono:
  assumes "x \<le> y"
  shows "round_half_even x \<le> round_half_even y"
proof (cases "\<lfloor>x\<rfloor> = \<lfloor>y\<rfloor>")
  case True
  then show ?thesis using assms by (auto simp: round_half_even_def Let_def)
next
  case False
  then have "\<lfloor>x\<rfloor> + 1 \<le> \<lfloor>y\<rfloor>" using floor_mono [OF assms] by linarith
  then show ?thesis using rhe_bounds(2) [of x] rhe_bounds(1) [of y] by linarith
qed

lemma rhe_near: "\<bar>of_int (round_half_even y) - y\<bar> \<le> 1 / 2"
proof -
  have "of_int \<lfloor>y\<rfloor> \<le> y" "y < of_int \<lfloor>y\<rfloor> + 1" by linarith+
  then show ?thesis by (auto simp: round_half_even_def Let_def)
qed

lemma ulp_exp_mono: "0 < x \<Longrightarrow> x \<le> y \<Longrightarrow> ulp_exp x \<le> ulp_exp y"
  using ilog2_mono [of x y] by (simp add: ulp_exp_def)

lemma rnd_mag_exact:
  assumes m: "0 < m" "m < 2 ^ 53" and k: "- 1074 \<le> k"
  shows "rnd_mag (of_int m * 2 powi k) = of_int m * 2 powi k"
proof -
  define x :: rat where "x = of_int m * 2 powi k"
  define e where "e = ulp_exp x"
  have xpos: "0 < x" using m(1) by (simp add: x_def)
  have "(of_int m :: rat) < of_int (2 ^ 53)" using m(2) by (simp only: of_int_less_iff)
  then have "(of_int m :: rat) < 2 powi 53" by simp
  then have "x < 2 powi 53 * 2 powi k" by (simp add: x_def)
  then have "x < 2 powi (53 + k)" by (simp add: powi_add)
  then have "ilog2 x < 53 + k" using xpos by (rule ilog2_less [rotated])
  then have ek: "e \<le> k" using k by (simp add: e_def ulp_exp_def)
  have split: "(2::rat) powi k = 2 powi (k - e) * 2 powi e"
    using powi_add [of "k - e" e] by simp
  have "(2::rat) powi (k - e) = of_int (2 ^ nat (k - e))" using ek by (simp add: powi_nat)
  then have q: "x / 2 powi e = of_int (m * 2 ^ nat (k - e))"
    by (simp add: x_def split)
  have "rnd_mag x = of_int (round_half_even (x / 2 powi e)) * 2 powi e"
    by (simp add: rnd_mag_def e_def)
  also have "\<dots> = of_int (m * 2 ^ nat (k - e)) * 2 powi e"
    by (simp only: q rhe_of_int)
  also have "\<dots> = x / 2 powi e * 2 powi e" by (simp only: q)
  also have "\<dots> = x" by simp
  finally show ?thesis by (simp add: x_def)
qed

lemma rnd_mag_nonneg: "0 < x \<Longrightarrow> 0 \<le> rnd_mag x"
proof -
  assume "0 < x"
  then have "0 \<le> x / 2 powi ulp_exp x" by simp
  then have "0 \<le> \<lfloor>x / 2 powi ulp_exp x\<rfloor>" by simp
  then have "0 \<le> round_half_even (x / 2 powi ulp_exp x)"
    using rhe_bounds(1) [of "x / 2 powi ulp_exp x"] by linarith
  then show ?thesis by (simp add: rnd_mag_def)
qed

lemma rnd_mag_mono:
  assumes "0 < x" "x \<le> y"
  shows "rnd_mag x \<le> rnd_mag y"
proof (cases "ulp_exp x = ulp_exp y")
  case True
  have "x / 2 powi ulp_exp y \<le> y / 2 powi ulp_exp y"
    using assms(2) by (simp add: divide_right_mono)
  then have "round_half_even (x / 2 powi ulp_exp y) \<le> round_half_even (y / 2 powi ulp_exp y)"
    by (rule rhe_mono)
  then have "(of_int (round_half_even (x / 2 powi ulp_exp y)) :: rat)
      \<le> of_int (round_half_even (y / 2 powi ulp_exp y))"
    by (simp only: of_int_le_iff)
  then show ?thesis by (simp add: rnd_mag_def True mult_right_mono)
next
  case False
  define ex where "ex = ulp_exp x"
  define ey where "ey = ulp_exp y"
  have ypos: "0 < y" using assms by linarith
  have lt: "ex + 1 \<le> ey" using False ulp_exp_mono [OF assms] by (simp add: ex_def ey_def)
  have "- 1074 \<le> ex" by (simp add: ex_def ulp_exp_def)
  then have ey: "ey = ilog2 y - 52" using lt by (simp add: ey_def ulp_exp_def)
  have "ilog2 x - 52 \<le> ex" by (simp add: ex_def ulp_exp_def)
  then have "x < 2 powi (ex + 53)"
    using ilog2_bounds(2) [OF assms(1)] powi_mono [of "ilog2 x + 1" "ex + 53"] by linarith
  then have "x < 2 powi 53 * 2 powi ex" using powi_add [of 53 ex] by (simp add: add.commute)
  then have "x / 2 powi ex < 2 powi 53" by (simp add: field_simps)
  then have "x / 2 powi ex \<le> of_int (2 ^ 53)" by simp
  then have "round_half_even (x / 2 powi ex) \<le> round_half_even (of_int (2 ^ 53))"
    by (rule rhe_mono)
  then have "round_half_even (x / 2 powi ex) \<le> 2 ^ 53" by (simp only: rhe_of_int)
  then have "(of_int (round_half_even (x / 2 powi ex)) :: rat) \<le> of_int (2 ^ 53)"
    by (simp only: of_int_le_iff)
  then have "rnd_mag x \<le> of_int (2 ^ 53) * 2 powi ex"
    by (simp only: rnd_mag_def ex_def [symmetric] mult_right_mono powi_pos less_imp_le)
  also have "\<dots> = 2 powi (ex + 53)" using powi_add [of 53 ex] by (simp add: add.commute)
  also have "\<dots> \<le> 2 powi (ey + 52)" using lt by (intro powi_mono) simp
  finally have left: "rnd_mag x \<le> 2 powi (ey + 52)" .
  have "2 powi (ey + 52) \<le> y" using ilog2_bounds(1) [OF ypos] ey by simp
  then have "2 powi 52 * 2 powi ey \<le> y" using powi_add [of 52 ey] by (simp add: add.commute)
  then have "of_int (2 ^ 52) \<le> y / 2 powi ey" by (simp add: field_simps)
  then have "round_half_even (of_int (2 ^ 52)) \<le> round_half_even (y / 2 powi ey)"
    by (rule rhe_mono)
  then have "2 ^ 52 \<le> round_half_even (y / 2 powi ey)" by (simp only: rhe_of_int)
  then have "(of_int (2 ^ 52) :: rat) \<le> of_int (round_half_even (y / 2 powi ey))"
    by (simp only: of_int_le_iff)
  then have "of_int (2 ^ 52) * 2 powi ey \<le> rnd_mag y"
    by (simp only: rnd_mag_def ey_def [symmetric] mult_right_mono powi_pos less_imp_le)
  moreover have "of_int (2 ^ 52) * 2 powi ey = (2::rat) powi (ey + 52)"
    using powi_add [of 52 ey] by (simp add: add.commute)
  ultimately show ?thesis using left by linarith
qed

subsection \<open>Rounding is exact on binary64 values and monotone\<close>

lemma rnd_not_NaN [simp]: "rnd x \<noteq> NaN"
  by (simp add: rnd_def)

lemma rnd_0 [simp]: "rnd 0 = Fin 0"
  by (simp add: rnd_def)

lemma rnd_exact:
  assumes m: "\<bar>m\<bar> < 2 ^ 53" and k: "- 1074 \<le> k"
    and small: "\<bar>of_int m :: rat\<bar> * 2 powi k < overflow_threshold"
  shows "rnd (of_int m * 2 powi k) = Fin (of_int m * 2 powi k)"
proof -
  consider "m = 0" | "0 < m" | "m < 0" by linarith
  then show ?thesis
  proof cases
    case 1
    then show ?thesis by simp
  next
    case 2
    then have pos: "0 < (of_int m :: rat) * 2 powi k" by simp
    have "rnd_mag (of_int m * 2 powi k) = of_int m * 2 powi k"
      using 2 m k by (intro rnd_mag_exact) simp_all
    moreover have "\<bar>of_int m :: rat\<bar> = of_int m" using 2 by simp
    ultimately show ?thesis using pos small by (simp add: rnd_def)
  next
    case 3
    then have neg: "(of_int m :: rat) * 2 powi k < 0" by (simp add: mult_neg_pos)
    have "rnd_mag (of_int (- m) * 2 powi k) = of_int (- m) * 2 powi k"
      using 3 m k by (intro rnd_mag_exact) simp_all
    then have "rnd_mag (- (of_int m * 2 powi k)) = - (of_int m * 2 powi k)" by simp
    moreover have "\<bar>of_int m :: rat\<bar> = - of_int m" using 3 by simp
    ultimately show ?thesis using neg small by (simp add: rnd_def)
  qed
qed

lemma rnd_dyadic:
  assumes "\<bar>n\<bar> < 2 ^ 53" "j \<le> 1074"
  shows "rnd (of_int n / 2 ^ j) = Fin (of_int n / 2 ^ j)"
proof -
  have p: "(2::rat) powi (- int j) = 1 / 2 ^ j" using powi_neg [of "int j"] by simp
  have "(of_int \<bar>n\<bar> :: rat) < of_int (2 ^ 53)" using assms(1) by (simp only: of_int_less_iff)
  then have a: "\<bar>of_int n :: rat\<bar> < 2 ^ 53" by simp
  have "\<bar>of_int n :: rat\<bar> * (1 / 2 ^ j) \<le> \<bar>of_int n\<bar> * 1"
    by (intro mult_left_mono) (simp_all add: field_simps)
  also have "\<dots> < 2 ^ 53" using a by simp
  also have "\<dots> < overflow_threshold"
    unfolding overflow_threshold_def by (rule power_strict_increasing) simp_all
  finally have "\<bar>of_int n :: rat\<bar> * 2 powi (- int j) < overflow_threshold" by (simp only: p)
  then have "rnd (of_int n * 2 powi (- int j)) = Fin (of_int n * 2 powi (- int j))"
    using assms by (intro rnd_exact) simp_all
  then show ?thesis by (simp add: p)
qed

lemma rnd_of_int: "\<bar>n\<bar> < 2 ^ 53 \<Longrightarrow> rnd (of_int n) = Fin (of_int n)"
  using rnd_dyadic [of n 0] by simp

lemma rnd_of_nat: "n < 2 ^ 53 \<Longrightarrow> rnd (of_nat n) = Fin (of_nat n)"
  using rnd_of_int [of "int n"] by simp

lemma rnd_mono:
  assumes "x \<le> y"
  shows "jle (rnd x) (rnd y)"
proof -
  consider "0 < x" | "x = 0" | "x < 0" "y < 0" | "x < 0" "0 \<le> y" by linarith
  then show ?thesis
  proof cases
    case 1
    then have "0 < y" using assms by linarith
    moreover have "rnd_mag x \<le> rnd_mag y" using 1 assms by (rule rnd_mag_mono)
    ultimately show ?thesis using 1 by (simp add: rnd_def)
  next
    case 2
    then show ?thesis using assms rnd_mag_nonneg [of y] by (simp add: rnd_def)
  next
    case 3
    have "rnd_mag (- y) \<le> rnd_mag (- x)" using 3 assms by (intro rnd_mag_mono) simp_all
    then show ?thesis using 3 by (simp add: rnd_def)
  next
    case 4
    have a: "- rnd_mag (- x) \<le> 0" using 4 rnd_mag_nonneg [of "- x"] by simp
    show ?thesis
    proof (cases "y = 0")
      case True
      then show ?thesis using 4 a by (simp add: rnd_def)
    next
      case False
      then have "0 < y" using 4 by simp
      then have "0 \<le> rnd_mag y" by (rule rnd_mag_nonneg)
      then have "- rnd_mag (- x) \<le> rnd_mag y" using a by linarith
      then show ?thesis using 4 \<open>0 < y\<close> by (simp add: rnd_def)
    qed
  qed
qed

lemma rnd_between:
  assumes "a \<le> x" "x \<le> b" "rnd a = Fin a" "rnd b = Fin b"
  obtains r where "rnd x = Fin r" "a \<le> r" "r \<le> b"
proof -
  have "jle (Fin a) (rnd x)" "jle (rnd x) (Fin b)"
    using rnd_mono [OF assms(1)] rnd_mono [OF assms(2)] assms(3,4) by simp_all
  then show ?thesis using that by (cases "rnd x") simp_all
qed

lemma rnd_grid:
  assumes "\<bar>x\<bar> \<le> 2 ^ 32"
  obtains r where "rnd x = Fin r" "\<bar>r - x\<bar> \<le> 1 / 2 ^ 20" "0 \<le> x \<Longrightarrow> 0 \<le> r"
    "x \<le> 0 \<Longrightarrow> r \<le> 0"
proof -
  define lo where "lo = \<lfloor>x * 2 ^ 20\<rfloor>"
  define hi where "hi = \<lceil>x * 2 ^ 20\<rceil>"
  have "\<bar>x * 2 ^ 20\<bar> \<le> 2 ^ 32 * 2 ^ 20" using assms by (simp add: abs_mult)
  then have b: "\<bar>x * 2 ^ 20\<bar> \<le> of_int (2 ^ 52)" by simp
  have lo_x: "of_int lo \<le> x * 2 ^ 20" "x * 2 ^ 20 \<le> of_int hi" "hi \<le> lo + 1"
    unfolding lo_def hi_def by linarith+
  have "- (2 ^ 52) \<le> lo" "hi \<le> 2 ^ 52"
    using b unfolding lo_def hi_def by (simp_all add: le_floor_iff ceiling_le_iff abs_le_iff)
  moreover have "lo \<le> hi" unfolding lo_def hi_def by linarith
  ultimately have bd: "\<bar>lo\<bar> < 2 ^ 53" "\<bar>hi\<bar> < 2 ^ 53" by simp_all
  have ex: "rnd (of_int lo / 2 ^ 20) = Fin (of_int lo / 2 ^ 20)"
    "rnd (of_int hi / 2 ^ 20) = Fin (of_int hi / 2 ^ 20)"
    using bd rnd_dyadic [of lo 20] rnd_dyadic [of hi 20] by simp_all
  have le: "of_int lo / 2 ^ 20 \<le> x" "x \<le> of_int hi / 2 ^ 20"
    using lo_x(1,2) by (simp_all add: field_simps)
  obtain r where r: "rnd x = Fin r" "of_int lo / 2 ^ 20 \<le> r" "r \<le> of_int hi / 2 ^ 20"
    using rnd_between [OF le ex] by blast
  have "(of_int hi :: rat) \<le> of_int (lo + 1)" using lo_x(3) by (simp only: of_int_le_iff)
  then have "(of_int hi :: rat) / 2 ^ 20 \<le> of_int lo / 2 ^ 20 + 1 / 2 ^ 20"
    by (simp add: field_simps)
  then have err: "\<bar>r - x\<bar> \<le> 1 / 2 ^ 20" using r(2,3) le by linarith
  have p: "0 \<le> r" if "0 \<le> x"
  proof -
    have "jle (rnd 0) (rnd x)" using that by (rule rnd_mono)
    then show ?thesis using r(1) by simp
  qed
  have n: "r \<le> 0" if "x \<le> 0"
  proof -
    have "jle (rnd x) (rnd 0)" using that by (rule rnd_mono)
    then show ?thesis using r(1) by simp
  qed
  show ?thesis using that [OF r(1) err] p n by blast
qed


subsection \<open>The rounded value at a given point, and the relative error\<close>

lemma rhe_eval:
  assumes "of_int m - 1 / 2 < y" "y < of_int m + 1 / 2"
  shows "round_half_even y = m"
proof (cases "y < of_int m")
  case True
  then have f: "\<lfloor>y\<rfloor> = m - 1" using assms(1) by linarith
  have "1 / 2 < y - of_int (m - 1)" using assms(1) by simp
  then show ?thesis by (simp add: round_half_even_def Let_def f)
next
  case False
  then have f: "\<lfloor>y\<rfloor> = m" using assms(2) by linarith
  then show ?thesis using assms(2) by (simp add: round_half_even_def Let_def f)
qed

lemma rhe_tie:
  assumes "y = of_int f + 1 / 2"
  shows "round_half_even y = (if even f then f else f + 1)"
proof -
  have "\<lfloor>y\<rfloor> = f" unfolding assms by linarith
  then show ?thesis by (simp add: round_half_even_def Let_def assms)
qed

lemma rnd_mag_binade:
  assumes j: "j \<le> 1074" and lo: "2 ^ 52 \<le> x * 2 ^ j" and hi: "x * 2 ^ j < 2 ^ 53"
  shows "rnd_mag x = of_int (round_half_even (x * 2 ^ j)) / 2 ^ j"
    and "rnd_mag x < overflow_threshold"
proof -
  have p: "(2::rat) powi (- int j) = 1 / 2 ^ j" using powi_neg [of "int j"] by simp
  have xpos: "0 < x"
  proof (rule ccontr)
    assume "\<not> 0 < x"
    then have "x * 2 ^ j \<le> 0" by (simp add: mult_le_0_iff)
    then show False using lo by simp
  qed
  have "(2::rat) powi (52 - int j) = 2 powi 52 * 2 powi (- int j)"
    using powi_add [of 52 "- int j"] by simp
  then have a: "(2::rat) powi (52 - int j) = 2 ^ 52 / 2 ^ j" by (simp add: p)
  have "(2::rat) powi (53 - int j) = 2 powi 53 * 2 powi (- int j)"
    using powi_add [of 53 "- int j"] by simp
  then have b: "(2::rat) powi (53 - int j) = 2 ^ 53 / 2 ^ j" by (simp add: p)
  have "2 powi (52 - int j) \<le> x" unfolding a using lo by (simp add: field_simps)
  then have 1: "52 - int j \<le> ilog2 x" by (rule ilog2_ge)
  have "x < 2 powi (53 - int j)" unfolding b using hi by (simp add: field_simps)
  then have 2: "ilog2 x < 53 - int j" using xpos by (rule ilog2_less [rotated])
  have "ilog2 x = 52 - int j" using 1 2 by simp
  then have u: "ulp_exp x = - int j" using j by (simp add: ulp_exp_def)
  show m: "rnd_mag x = of_int (round_half_even (x * 2 ^ j)) / 2 ^ j"
    by (simp add: rnd_mag_def u p)
  have "x * 2 ^ j \<le> of_int (2 ^ 53)" using hi by simp
  then have "round_half_even (x * 2 ^ j) \<le> round_half_even (of_int (2 ^ 53))" by (rule rhe_mono)
  then have "round_half_even (x * 2 ^ j) \<le> 2 ^ 53" by (simp only: rhe_of_int)
  then have "(of_int (round_half_even (x * 2 ^ j)) :: rat) \<le> of_int (2 ^ 53)"
    by (simp only: of_int_le_iff)
  then have "(of_int (round_half_even (x * 2 ^ j)) :: rat) \<le> 2 ^ 53" by simp
  moreover have "(1::rat) \<le> 2 ^ j" by simp
  ultimately have "(of_int (round_half_even (x * 2 ^ j)) :: rat) / 2 ^ j \<le> 2 ^ 53 / 1"
    by (intro frac_le) simp_all
  also have "\<dots> < overflow_threshold"
    unfolding overflow_threshold_def by simp
  finally show "rnd_mag x < overflow_threshold" by (simp only: m)
qed

lemma rnd_binade:
  assumes "j \<le> 1074" "2 ^ 52 \<le> x * 2 ^ j" "x * 2 ^ j < 2 ^ 53"
  shows "rnd x = Fin (of_int (round_half_even (x * 2 ^ j)) / 2 ^ j)"
proof -
  have xpos: "0 < x"
  proof (rule ccontr)
    assume "\<not> 0 < x"
    then have "x * 2 ^ j \<le> 0" by (simp add: mult_le_0_iff)
    then show False using assms(2) by simp
  qed
  show ?thesis
    using xpos rnd_mag_binade [OF assms] by (simp add: rnd_def)
qed

lemma rnd_eval:
  assumes "j \<le> 1074" "2 ^ 52 \<le> x * 2 ^ j" "x * 2 ^ j < 2 ^ 53"
    and "of_int m - 1 / 2 < x * 2 ^ j" "x * 2 ^ j < of_int m + 1 / 2"
  shows "rnd x = Fin (of_int m / 2 ^ j)"
  using rnd_binade [OF assms(1-3)] rhe_eval [OF assms(4,5)] by simp

lemma rnd_eval_tie:
  assumes "j \<le> 1074" "2 ^ 52 \<le> x * 2 ^ j" "x * 2 ^ j < 2 ^ 53"
    and "x * 2 ^ j = of_int f + 1 / 2"
  shows "rnd x = Fin (of_int (if even f then f else f + 1) / 2 ^ j)"
  using rnd_binade [OF assms(1-3)] rhe_tie [OF assms(4)] by simp

lemma rnd_rel:
  assumes "1 / 2 ^ 1022 \<le> x" "x \<le> 2 ^ 1000"
  obtains r where "rnd x = Fin r" "\<bar>r - x\<bar> \<le> x / 2 ^ 53"
proof -
  define k where "k = ilog2 x"
  define e where "e = k - 52"
  define y where "y = x / 2 powi e"
  have xpos: "0 < x"
  proof -
    have "(0::rat) < 1 / 2 ^ 1022" by simp
    then show ?thesis using assms(1) by linarith
  qed
  have lo: "2 powi k \<le> x" unfolding k_def using xpos by (rule ilog2_bounds)
  have "(2::rat) powi (- 1022) = 1 / 2 ^ 1022" using powi_neg [of 1022] by simp
  then have "2 powi (- 1022) \<le> x" using assms(1) by simp
  then have k1: "- 1022 \<le> k" unfolding k_def by (rule ilog2_ge)
  then have u: "ulp_exp x = e" by (simp add: ulp_exp_def k_def e_def)
  have m: "rnd_mag x = of_int (round_half_even y) * 2 powi e"
    by (simp add: rnd_mag_def u y_def)
  have yx: "y * 2 powi e = x" by (simp add: y_def)
  have "rnd_mag x - x = (of_int (round_half_even y) - y) * 2 powi e"
    unfolding m using yx by (simp add: algebra_simps)
  then have "\<bar>rnd_mag x - x\<bar> = \<bar>of_int (round_half_even y) - y\<bar> * 2 powi e"
    by (simp add: abs_mult)
  also have "\<dots> \<le> 1 / 2 * 2 powi e"
    using rhe_near [of y] by (intro mult_right_mono) simp_all
  finally have d: "\<bar>rnd_mag x - x\<bar> \<le> 1 / 2 * 2 powi e" .
  have "(2::rat) powi k = 2 powi 52 * 2 powi e" using powi_add [of 52 e] by (simp add: e_def)
  then have "2 ^ 52 * 2 powi e \<le> x" using lo by simp
  then have "1 / 2 * 2 powi e \<le> x / 2 ^ 53" by (simp add: field_simps)
  then have err: "\<bar>rnd_mag x - x\<bar> \<le> x / 2 ^ 53" using d by linarith
  have "x / 2 ^ 53 \<le> x" using xpos by (simp add: field_simps)
  then have "rnd_mag x \<le> 2 * x" using err by linarith
  also have "\<dots> \<le> 2 * 2 ^ 1000" using assms(2) by simp
  also have "\<dots> < overflow_threshold" unfolding overflow_threshold_def by simp
  finally have "rnd x = Fin (rnd_mag x)" using xpos by (simp add: rnd_def)
  then show ?thesis using that err by blast
qed

lemma rnd_rel_mid:
  assumes "1 / 2 ^ 40 \<le> x" "x \<le> 2 ^ 40"
  obtains r where "rnd x = Fin r" "\<bar>r - x\<bar> \<le> x / 2 ^ 53"
proof -
  have "(1::rat) / 2 ^ 1022 \<le> 1 / 2 ^ 40"
    by (intro divide_left_mono power_increasing) simp_all
  then have 1: "1 / 2 ^ 1022 \<le> x" using assms(1) by (rule order_trans)
  have "(2::rat) ^ 40 \<le> 2 ^ 1000" by (intro power_increasing) simp_all
  then have 2: "x \<le> 2 ^ 1000" using assms(2) by (rule order_trans [rotated])
  show ?thesis using rnd_rel [OF 1 2] that by blast
qed

lemma rel_bounds:
  fixes r x :: rat
  assumes "\<bar>r - x\<bar> \<le> x / 2 ^ 53"
  shows "x * (1 - 1 / 2 ^ 53) \<le> r" "r \<le> x * (1 + 1 / 2 ^ 53)"
proof -
  define z where "z = x / 2 ^ 53"
  have e: "x * (1 - 1 / 2 ^ 53) = x - z" "x * (1 + 1 / 2 ^ 53) = x + z"
    by (simp_all add: z_def algebra_simps)
  have "\<bar>r - x\<bar> \<le> z" using assms by (simp only: z_def)
  then have "x - z \<le> r" "r \<le> x + z" by linarith+
  then show "x * (1 - 1 / 2 ^ 53) \<le> r" "r \<le> x * (1 + 1 / 2 ^ 53)"
    by (simp_all only: e)
qed

subsection \<open>Arithmetic on numbers that keep their sign\<close>

lemma num_exact: "n < 2 ^ 53 \<Longrightarrow> num n = Fin (of_nat n)"
  by (simp add: num_def rnd_of_nat)

lemma rnd_nonneg: "0 \<le> x \<Longrightarrow> nonneg (rnd x)"
  using rnd_mono [of 0 x] by (cases "rnd x") simp_all

lemma rnd_nonpos: "x \<le> 0 \<Longrightarrow> nonpos (rnd x)"
  using rnd_mono [of x 0] by (cases "rnd x") simp_all

lemma num_nonneg: "nonneg (num n)"
  by (simp add: num_def rnd_nonneg)

lemma jdiv_nonneg: "nonneg a \<Longrightarrow> 0 < c \<Longrightarrow> nonneg (jdiv a (Fin c))"
  by (cases a) (simp_all add: rnd_nonneg signed_inf_def)

lemma jdiv_nonpos: "nonpos a \<Longrightarrow> 0 < c \<Longrightarrow> nonpos (jdiv a (Fin c))"
  by (cases a) (simp_all add: rnd_nonpos signed_inf_def divide_nonpos_pos)

lemma jmul_nonneg: "nonneg a \<Longrightarrow> 0 < c \<Longrightarrow> nonneg (jmul a (Fin c))"
  by (cases a) (simp_all add: rnd_nonneg signed_inf_def)

lemma jmul_nonpos: "nonpos a \<Longrightarrow> 0 < c \<Longrightarrow> nonpos (jmul a (Fin c))"
  by (cases a) (simp_all add: rnd_nonpos signed_inf_def mult_nonpos_nonneg)

lemma Math_round_nonneg: "nonneg a \<Longrightarrow> nonneg (Math_round a)"
  by (cases a) simp_all

lemma Math_round_nonpos: "nonpos a \<Longrightarrow> nonpos (Math_round a)"
proof (cases a)
  case (Fin x)
  assume "nonpos a"
  then have "x + 1 / 2 < 1" using Fin by simp
  then have "\<lfloor>x + 1 / 2\<rfloor> \<le> 0" by (simp add: floor_le_iff)
  then show ?thesis using Fin by simp
qed simp_all

lemma bytes_to_GB_nonneg: "nonneg (bytes_to_GB n)"
  unfolding bytes_to_GB_def
  by (intro jdiv_nonneg jmul_nonneg Math_round_nonneg num_nonneg) simp_all

lemma jsub_zero_nonneg: "nonneg g \<Longrightarrow> nonpos (jsub (Fin 0) g)"
  by (cases g) (simp_all add: jsub_def rnd_nonpos)

lemma jdiv_1024:
  assumes "\<bar>n\<bar> < 2 ^ 53" "j + 10 \<le> 1074"
  shows "jdiv (Fin (of_int n / 2 ^ j)) (Fin 1024) = Fin (of_int n / 2 ^ (j + 10))"
proof -
  have e: "(of_int n :: rat) / 2 ^ j / 1024 = of_int n / 2 ^ (j + 10)"
    by (simp add: power_add)
  have "jdiv (Fin (of_int n / 2 ^ j)) (Fin 1024) = rnd (of_int n / 2 ^ j / 1024)"
    by simp
  also have "\<dots> = Fin (of_int n / 2 ^ (j + 10))"
    unfolding e using assms by (rule rnd_dyadic)
  finally show ?thesis .
qed

lemma div_1024_cubed:
  assumes "n < 2 ^ 53"
  shows "jdiv (jdiv (jdiv (num n) (Fin 1024)) (Fin 1024)) (Fin 1024) = Fin (of_nat n / 2 ^ 30)"
proof -
  have b: "\<bar>int n\<bar> < 2 ^ 53" using assms by simp
  have 0: "num n = Fin (of_int (int n) / 2 ^ 0)" using assms by (simp add: num_exact)
  have "jdiv (jdiv (jdiv (num n) (Fin 1024)) (Fin 1024)) (Fin 1024)
      = Fin (of_int (int n) / 2 ^ (0 + 10 + 10 + 10))"
    unfolding 0 using b by (simp only: jdiv_1024)
  then show ?thesis by simp
qed

lemma Math_round_int: "Math_round (Fin (of_int k)) = Fin (of_int k)"
proof -
  have "\<lfloor>(of_int k :: rat) + 1 / 2\<rfloor> = k" by linarith
  then show ?thesis by simp
qed

lemma Math_round_0: "Math_round (Fin 0) = Fin 0"
  using Math_round_int [of 0] by simp

lemma times_100:
  assumes "100 * n < 2 ^ 53"
  shows "jmul (Fin (of_nat n / 2 ^ 30)) (Fin 100) = Fin (of_nat (100 * n) / 2 ^ 30)"
proof -
  have "\<bar>int (100 * n)\<bar> < 2 ^ 53" using assms by simp
  then have "rnd (of_int (int (100 * n)) / 2 ^ 30) = Fin (of_int (int (100 * n)) / 2 ^ 30)"
    by (rule rnd_dyadic) simp
  moreover have "(of_nat n :: rat) / 2 ^ 30 * 100 = of_int (int (100 * n)) / 2 ^ 30"
    by simp
  moreover have "(of_int (int (100 * n)) :: rat) = of_nat (100 * n)" by simp
  ultimately have "rnd (of_nat n / 2 ^ 30 * 100) = Fin (of_nat (100 * n) / 2 ^ 30)"
    by (simp only:)
  then show ?thesis by (simp only: jmul.simps)
qed

lemma bytes_to_GB_small:
  assumes "n < 5368710"
  shows "bytes_to_GB n = Fin 0"
proof -
  have n53: "n < 2 ^ 53" using assms by simp
  have a: "jmul (Fin (of_nat n / 2 ^ 30)) (Fin 100) = Fin (of_nat (100 * n) / 2 ^ 30)"
    using assms by (intro times_100) simp
  have "100 * n < 2 ^ 29" using assms by simp
  then have "(of_nat (100 * n) :: rat) < of_nat (2 ^ 29)" by (simp only: of_nat_less_iff)
  then have "(of_nat (100 * n) :: rat) / 2 ^ 30 + 1 / 2 < 1" by simp
  moreover have "0 \<le> (of_nat (100 * n) :: rat) / 2 ^ 30 + 1 / 2" by simp
  ultimately have "\<lfloor>(of_nat (100 * n) :: rat) / 2 ^ 30 + 1 / 2\<rfloor> = 0" by linarith
  then have b: "Math_round (Fin (of_nat (100 * n) / 2 ^ 30)) = Fin 0"
    by (simp only: Math_round.simps of_int_0)
  have c: "jdiv (Fin 0) (Fin 100) = Fin 0" by simp
  show ?thesis
    unfolding bytes_to_GB_def div_1024_cubed [OF n53] by (simp only: a b c)
qed

lemma used_of_zero: "jdiv (Math_round (jmul (jsub (Fin 0) (Fin 0)) (Fin 100))) (Fin 100) = Fin 0"
proof -
  have a: "jmul (jsub (Fin 0) (Fin 0)) (Fin 100) = Fin 0" by (simp add: jsub_def)
  have c: "jdiv (Fin 0) (Fin 100) = Fin 0" by simp
  show ?thesis by (simp only: a Math_round_0 c)
qed

lemma percent_of_zero: "Math_round (jmul (jdiv (Fin 0) (Fin 0)) (Fin 100)) = NaN"
  by simp

lemma usagePercent_zero_total:
  assumes "nonneg g"
  defines "u \<equiv> jdiv (Math_round (jmul (jsub (Fin 0) g) (Fin 100))) (Fin 100)"
  shows "\<not> is_finite (Math_round (jmul (jdiv u (Fin 0)) (Fin 100)))"
proof -
  have "nonpos u" unfolding u_def
    by (intro jdiv_nonpos Math_round_nonpos jmul_nonpos jsub_zero_nonneg assms) simp_all
  then have "jdiv u (Fin 0) = NaN \<or> jdiv u (Fin 0) = NInf"
    by (cases u) (auto simp: signed_inf_def)
  then show ?thesis by (auto simp: signed_inf_def)
qed

section \<open>Properties of the CPU sampler\<close>

lemma clamp_range:
  "x \<noteq> NaN \<Longrightarrow> \<exists>r. clamp_percent x = Fin r \<and> 0 \<le> r \<and> r \<le> 100"
  by (cases x) (auto simp: clamp_percent_def Math_max_def Math_min_def)




lemma jdiv_not_NaN: "a \<noteq> NaN \<Longrightarrow> t \<noteq> 0 \<Longrightarrow> jdiv a (Fin t) \<noteq> NaN"
  by (cases a) (simp_all add: signed_inf_def)

lemma Math_floor_not_NaN: "a \<noteq> NaN \<Longrightarrow> Math_floor a \<noteq> NaN"
  by (cases a) simp_all

lemma jsub_not_NaN: "b \<noteq> NaN \<Longrightarrow> jsub (Fin c) b \<noteq> NaN"
  by (cases b) (simp_all add: jsub_def)

lemma getCPUUsage_clamp:
  "getCPUUsage cpus0 cpus1 = clamp_percent (cpuPercentage (cpuAverage cpus0) (cpuAverage cpus1))"
  by (simp add: getCPUUsage_def clamp_percent_def)

lemma times_100_int:
  assumes "\<bar>i\<bar> \<le> 2 ^ 46"
  shows "jmul (Fin 100) (Fin (of_int i)) = Fin (of_int (100 * i))"
proof -
  have "\<bar>100 * i\<bar> < 2 ^ 53" using assms by simp
  then have "rnd (of_int (100 * i)) = Fin (of_int (100 * i))" by (rule rnd_of_int)
  moreover have "(100 :: rat) * of_int i = of_int (100 * i)" by simp
  ultimately show ?thesis by (simp only: jmul.simps)
qed





subsection \<open>The samples of the concrete run\<close>

lemma rnd_numeral: "(numeral n :: int) < 2 ^ 53 \<Longrightarrow> rnd (numeral n) = Fin (numeral n)"
  using rnd_of_int [of "numeral n"] by simp


lemma num_numeral: "(numeral n :: nat) < 2 ^ 53 \<Longrightarrow> num (numeral n) = Fin (numeral n)"
  using num_exact [of "numeral n"] by simp

lemma num_0: "num 0 = Fin 0"
  by (simp add: num_def)

lemma num_1: "num (Suc 0) = Fin 1"
  using num_exact [of 1] by simp

lemma cpuAverage_samples:
  "cpuAverage cpus_before = \<lparr> idle_avg = Fin 1000, total_avg = Fin 5000 \<rparr>"
  "cpuAverage cpus_after = \<lparr> idle_avg = Fin 1800, total_avg = Fin 6000 \<rparr>"
  by (simp_all add: cpuAverage_def cpus_before_def cpus_after_def add_ticks_def
      num_numeral num_0 num_1 rnd_numeral)

lemma sample_deltas:
  "idleDifference (cpuAverage cpus_before) (cpuAverage cpus_after) = Fin 800"
  "totalDifference (cpuAverage cpus_before) (cpuAverage cpus_after) = Fin 1000"
  by (simp_all add: cpuAverage_samples idleDifference_def totalDifference_def jsub_def
      rnd_numeral)

lemma same_sample_deltas:
  "idleDifference (cpuAverage cpus_before) (cpuAverage cpus_before) = Fin 0"
  "totalDifference (cpuAverage cpus_before) (cpuAverage cpus_before) = Fin 0"
  by (simp_all add: cpuAverage_samples idleDifference_def totalDifference_def jsub_def)

subsection \<open>Sums and averages of ticks\<close>








subsection \<open>The error of the averages, of their differences and of the quotient\<close>






subsection \<open>The samples of the host with three cores\<close>











subsection \<open>The result of \<open>getCPUUsage\<close>\<close>

text \<open>A total difference of 0 with an idle difference that is not 0 is a division of a
  number by zero, an infinity, which the clamping brings back into the range.\<close>

lemma zero_total_nonzero_idle:
  "clamp_percent (jsub (Fin 100) (Math_floor (jdiv (jmul (Fin 100) (Fin 5)) (Fin 0)))) = Fin 0"
  "clamp_percent (jsub (Fin 100) (Math_floor (jdiv (jmul (Fin 100) (Fin (- 5))) (Fin 0)))) = Fin 100"
proof -
  have "rnd (- 500) = Fin (- 500)" using rnd_of_int [of "- 500"] by simp
  then show
    "clamp_percent (jsub (Fin 100) (Math_floor (jdiv (jmul (Fin 100) (Fin 5)) (Fin 0)))) = Fin 0"
    "clamp_percent (jsub (Fin 100) (Math_floor (jdiv (jmul (Fin 100) (Fin (- 5))) (Fin 0)))) = Fin 100"
    by (simp_all add: rnd_numeral signed_inf_def jsub_def clamp_percent_def Math_max_def
        Math_min_def)
qed

text \<open>
  C2. The clamping \<open>Math.max(0, Math.min(100, ...))\<close> of line 41 brings every number
  into \<open>[0, 100]\<close>, but NaN passes through it: for every pair of samples the result is
  NaN or a number in \<open>[0, 100]\<close>, and it is NaN, not 0, for two equal samples (the idle
  and the total difference are both 0, and nothing guards the division) and for an empty
  list of cores.
\<close>

theorem getCPUUsage_NaN_escapes_clamp:
  "(getCPUUsage cpus0 cpus1 = NaN
      \<or> (\<exists>r. getCPUUsage cpus0 cpus1 = Fin r \<and> 0 \<le> r \<and> r \<le> 100))
   \<and> idleDifference (cpuAverage cpus_before) (cpuAverage cpus_before) = Fin 0
   \<and> totalDifference (cpuAverage cpus_before) (cpuAverage cpus_before) = Fin 0
   \<and> getCPUUsage cpus_before cpus_before = NaN
   \<and> getCPUUsage [] [] = NaN"
proof -
  have 1: "getCPUUsage cpus0 cpus1 = NaN
      \<or> (\<exists>r. getCPUUsage cpus0 cpus1 = Fin r \<and> 0 \<le> r \<and> r \<le> 100)"
  proof (cases "cpuPercentage (cpuAverage cpus0) (cpuAverage cpus1) = NaN")
    case True
    then show ?thesis by (simp add: getCPUUsage_def Math_max_def Math_min_def)
  next
    case False
    then show ?thesis unfolding getCPUUsage_clamp using clamp_range by blast
  qed
  have 2: "getCPUUsage cpus_before cpus_before = NaN"
    by (simp add: same_sample_deltas getCPUUsage_def cpuPercentage_def jsub_def
        Math_max_def Math_min_def)
  have 3: "getCPUUsage [] [] = NaN"
    by (simp add: getCPUUsage_def cpuPercentage_def cpuAverage_def idleDifference_def
        totalDifference_def jsub_def num_0 Math_max_def Math_min_def)
  show ?thesis using 1 2 3 by (simp add: same_sample_deltas)
qed









section \<open>Properties of the process collector\<close>

lemma parse_ids:
  "map proc_id (parse_processes env stdout) =
     map (\<lambda>i. int i + 1) [0..<length (parse_processes env stdout)]"
  by (auto simp: parse_processes_def win_process_def unix_process_def Let_def enumerate_eq_zip
      intro!: nth_equalityI)

lemma real_ids:
  "map proc_id (take 10 (parse_processes env stdout)) =
     map (\<lambda>i. int i + 1) [0..<min 10 (length (parse_processes env stdout))]"
proof -
  have "map proc_id (take 10 (parse_processes env stdout)) =
          take 10 (map proc_id (parse_processes env stdout))"
    by (simp add: take_map)
  also have "\<dots> = take 10 (map (\<lambda>i. int i + 1) [0..<length (parse_processes env stdout)])"
    by (simp only: parse_ids)
  also have "\<dots> = map (\<lambda>i. int i + 1) [0..<min 10 (length (parse_processes env stdout))]"
    by (simp add: take_map min_def)
  finally show ?thesis .
qed

lemma simulated_ids:
  "map proc_id (simulatedProcesses env) =
     [now_sim env 0, now_sim env 1 + 1, now_sim env 2 + 2, now_sim env 3 + 3, now_sim env 4 + 4]"
  by (simp add: simulatedProcesses_def)

text \<open>
  C1, as amended. When the listing command fails, \<open>getProcesses\<close> still resolves, and it
  resolves with the empty list: neither a real entry nor any of the five simulated
  records. (The promise has no rejecting path, so nothing reaches the caller.)
\<close>

theorem getProcesses_exec_error_empty:
  "exec_out env = ExecError \<Longrightarrow> getProcesses env = []"
  by (simp add: getProcesses_def)

theorem getProcesses_exec_error_empty_witness:
  "exec_out env_fail = ExecError \<and> getProcesses env_fail = []"
  using getProcesses_exec_error_empty [of env_fail] by (simp add: env_fail_def)

text \<open>The claim as stated fails: on a failing command the result is not the list of the
  five simulated records.\<close>

theorem getProcesses_exec_error_not_simulated:
  "exec_out env_fail = ExecError
     \<and> getProcesses env_fail \<noteq> simulatedProcesses env_fail
     \<and> length (getProcesses env_fail) \<noteq> 5"
  by (simp add: env_fail_def getProcesses_def simulatedProcesses_def)

text \<open>
  C8. When the command succeeds, the result is the list of the five simulated records,
  with their fixed names, pids, CPU and memory values, followed by the first ten (at
  most) of the parsed records, in the order of the listing.
\<close>

theorem getProcesses_success_layout:
  assumes "exec_out env = Stdout stdout"
  shows "getProcesses env = simulatedProcesses env @ take 10 (parse_processes env stdout)
     \<and> length (simulatedProcesses env) = 5
     \<and> length (take 10 (parse_processes env stdout)) \<le> 10
     \<and> map (\<lambda>p. (proc_name p, proc_pid p, proc_cpu p, proc_memory p, proc_status p))
          (simulatedProcesses env) =
        [(str ''chrome.exe'', str ''1234'', lit (255 / 10), lit (8562 / 10), str ''Running''),
         (str ''node.exe'', str ''5678'', lit (123 / 10), lit (3421 / 10), str ''Running''),
         (str ''code.exe'', str ''9012'', lit (87 / 10), lit (6234 / 10), str ''Running''),
         (str ''firefox.exe'', str ''3456'', lit (152 / 10), lit (7218 / 10), str ''Running''),
         (str ''explorer.exe'', str ''7890'', lit (31 / 10), lit (1245 / 10), str ''Running'')]"
  using assms by (simp add: getProcesses_def simulatedProcesses_def)

lemma ps_output_lines:
  "split_char 0x0A (trim ps_output) =
     [str ''PID    PPID %CPU %MEM COMMAND'',
      str ''    812       1  2.5  1.3 node'',
      str ''      1       0  0.0  0.1 systemd'']"
proof -
  have "trim ps_output =
     str ''PID    PPID %CPU %MEM COMMAND'' @ [0x0A] @
     str ''    812       1  2.5  1.3 node'' @ [0x0A] @
     str ''      1       0  0.0  0.1 systemd''"
    by (simp add: trim_def ps_output_def is_space_def str_def)
  then show ?thesis by (simp add: str_def)
qed

lemma ps_output_columns:
  "split_ws (trim (str ''    812       1  2.5  1.3 node''))
     = [str ''812'', str ''1'', str ''2.5'', str ''1.3'', str ''node'']"
  "split_ws (trim (str ''      1       0  0.0  0.1 systemd''))
     = [str ''1'', str ''0'', str ''0.0'', str ''0.1'', str ''systemd'']"
  by (simp_all add: trim_def is_space_def str_def)

text \<open>A no-break space in a command name splits the line like any other white space.\<close>

lemma no_break_space_columns:
  "split_ws (trim (str ''  7 1 0.0 0.0 foo'' @ [0xA0] @ str ''bar'' @ [0x0D]))
     = [str ''7'', str ''1'', str ''0.0'', str ''0.0'', str ''foo'', str ''bar'']"
  by (simp add: trim_def is_space_def str_def)

lemma env_unix_parsed:
  "map (\<lambda>p. (proc_id p, proc_name p, proc_pid p)) (parse_processes env_unix ps_output) =
     [(1, str ''node'', str ''812''), (2, str ''systemd'', str ''1'')]"
  by (simp add: parse_processes_def env_unix_def ps_output_lines unix_process_def
      ps_output_columns col_or_def Let_def)
    (simp add: str_def)

theorem getProcesses_success_layout_witness:
  "exec_out env_unix = Stdout ps_output
     \<and> map (\<lambda>p. (proc_id p, proc_name p, proc_pid p)) (getProcesses env_unix) =
         [(1700000000000, str ''chrome.exe'', str ''1234''),
          (1700000000001, str ''node.exe'', str ''5678''),
          (1700000000002, str ''code.exe'', str ''9012''),
          (1700000000003, str ''firefox.exe'', str ''3456''),
          (1700000000004, str ''explorer.exe'', str ''7890''),
          (1, str ''node'', str ''812''), (2, str ''systemd'', str ''1'')]"
proof -
  have out: "exec_out env_unix = Stdout ps_output"
    by (simp add: env_unix_def)
  have clock: "now_sim env_unix = (\<lambda>k. 1700000000000)"
    by (simp add: env_unix_def)
  have "map (\<lambda>p. (proc_id p, proc_name p, proc_pid p)) (getProcesses env_unix) =
          map (\<lambda>p. (proc_id p, proc_name p, proc_pid p)) (simulatedProcesses env_unix)
            @ take 10 (map (\<lambda>p. (proc_id p, proc_name p, proc_pid p))
                 (parse_processes env_unix ps_output))"
    using getProcesses_success_layout [OF out] by (simp add: take_map)
  then show ?thesis
    using out by (simp add: env_unix_parsed simulatedProcesses_def clock)
qed

text \<open>
  C9, as amended. The ids of one list are pairwise distinct provided the five readings
  of the clock in \<open>simulatedProcesses\<close> do not decrease and the first of them is greater
  than 10, the largest id a parsed record can carry.
\<close>

theorem getProcesses_ids_distinct:
  assumes mono: "now_sim env 0 \<le> now_sim env 1" "now_sim env 1 \<le> now_sim env 2"
      "now_sim env 2 \<le> now_sim env 3" "now_sim env 3 \<le> now_sim env 4"
    and big: "10 < now_sim env 0"
  shows "distinct (map proc_id (getProcesses env))"
proof (cases "exec_out env")
  case ExecError
  then show ?thesis by (simp add: getProcesses_def)
next
  case (Stdout stdout)
  let ?n = "min 10 (length (parse_processes env stdout))"
  have real: "map proc_id (take 10 (parse_processes env stdout)) = map (\<lambda>i. int i + 1) [0..<?n]"
    by (rule real_ids)
  have d_real: "distinct (map (\<lambda>i. int i + 1) [0..<?n])"
    by (simp add: distinct_map inj_on_def)
  have d_sim: "distinct (map proc_id (simulatedProcesses env))"
    using mono by (simp add: simulated_ids)
  have small: "x \<le> 10" if "x \<in> set (map (\<lambda>i. int i + 1) [0..<?n])" for x
    using that by auto
  have large: "10 < x" if "x \<in> set (map proc_id (simulatedProcesses env))" for x
    using that mono big by (auto simp: simulated_ids)
  have disj: "set (map proc_id (simulatedProcesses env)) \<inter> set (map (\<lambda>i. int i + 1) [0..<?n]) = {}"
    using small large by fastforce
  have "map proc_id (getProcesses env) =
          map proc_id (simulatedProcesses env) @ map (\<lambda>i. int i + 1) [0..<?n]"
    using Stdout real by (simp add: getProcesses_def)
  then show ?thesis
    using d_real d_sim disj by simp
qed

theorem getProcesses_ids_distinct_witness:
  "10 < now_sim env_unix 0 \<and> distinct (map proc_id (getProcesses env_unix))"
  using getProcesses_ids_distinct [of env_unix] by (simp add: env_unix_def)

text \<open>The claim as stated fails: when the clock is set back by a millisecond between the
  first two entries, both get the id 1700000000001.\<close>

theorem getProcesses_ids_clash_clock_back:
  "\<not> distinct (map proc_id (getProcesses env_clock_back))"
  by (simp add: getProcesses_def env_clock_back_def env_unix_def simulated_ids)

section \<open>Properties of the metrics cache\<close>

subsection \<open>The invariant of the event loop\<close>

text \<open>The record a refresh builds does not depend on the record it replaces.\<close>

lemma updateSystemCache_any: "updateSystemCache env c = updateSystemCache env initialCache"
  by (simp add: updateSystemCache_def)

lemma generations_mono:
  "set envs \<subseteq> set envs' \<Longrightarrow> set (generations envs) \<subseteq> set (generations envs')"
  by (auto simp: generations_def)

lemma one_generation_mono:
  "one_generation envs s \<Longrightarrow> set envs \<subseteq> set envs' \<Longrightarrow> one_generation envs' s"
  unfolding one_generation_def using generations_mono [of envs envs'] by blast

lemma reply_to_generation:
  "c \<in> set (generations envs) \<Longrightarrow> rep \<in> set (reply_to r c) \<Longrightarrow>
     \<exists>c \<in> set (generations envs).
        rep = UsageReply (usage c) \<or> rep = ProcessesReply (processes c) (length (processes c))"
  by (cases r) auto

lemma step_one_generation:
  assumes "one_generation envs s"
  shows "one_generation (envs @ arrived [e]) (step s e)"
proof (cases e)
  case (Arrives r now env)
  have s': "one_generation (envs @ [env]) s"
    using assms by (rule one_generation_mono) auto
  show ?thesis
  proof (cases "stale r now (systemCache s)")
    case True
    then show ?thesis using s' Arrives by (auto simp: one_generation_def)
  next
    case False
    then show ?thesis
      using s' Arrives reply_to_generation [of "systemCache s" "envs @ [env]" _ r]
      by (auto simp: one_generation_def)
  qed
next
  case (Completes k)
  show ?thesis
  proof (cases "k < length (inflight s)")
    case False
    then show ?thesis using assms Completes by simp
  next
    case True
    define f where "f = inflight s ! k"
    define c where "c = updateSystemCache (observed f) (systemCache s)"
    have "f \<in> set (inflight s)" using True by (simp add: f_def)
    then have "observed f \<in> set envs" using assms by (simp add: one_generation_def)
    moreover have "c = updateSystemCache (observed f) initialCache"
      unfolding c_def by (rule updateSystemCache_any)
    ultimately have cg: "c \<in> set (generations envs)" by (simp add: generations_def)
    have st: "step s e = s \<lparr> systemCache := c,
        inflight := take k (inflight s) @ drop (Suc k) (inflight s),
        resuming := resuming s @ [requester f] \<rparr>"
      using True Completes by (simp add: Let_def f_def c_def)
    have "set (take k (inflight s) @ drop (Suc k) (inflight s)) \<subseteq> set (inflight s)"
      using set_take_subset [of k "inflight s"] set_drop_subset [of "Suc k" "inflight s"] by auto
    then show ?thesis
      unfolding st using assms cg Completes by (auto simp: one_generation_def)
  qed
next
  case (Resumes k)
  show ?thesis
  proof (cases "k < length (resuming s)")
    case False
    then show ?thesis using assms Resumes by simp
  next
    case True
    have cg: "systemCache s \<in> set (generations envs)"
      using assms by (simp add: one_generation_def)
    show ?thesis
      using True assms Resumes reply_to_generation [OF cg, of _ "resuming s ! k"]
      by (auto simp: one_generation_def)
  qed
qed

lemma foldl_one_generation:
  "one_generation envs s \<Longrightarrow> one_generation (envs @ arrived es) (foldl step s es)"
proof (induction es arbitrary: envs s)
  case Nil
  then show ?case by simp
next
  case (Cons e es)
  have "one_generation (envs @ arrived [e]) (step s e)"
    using Cons.prems by (rule step_one_generation)
  then have "one_generation ((envs @ arrived [e]) @ arrived es) (foldl step (step s e) es)"
    by (rule Cons.IH)
  moreover have "arrived [e] @ arrived es = arrived (e # es)" by (cases e) simp_all
  ultimately show ?case by simp
qed

lemma run_one_generation: "one_generation (arrived events) (run events)"
  unfolding run_def
  using foldl_one_generation
    [of "[]" "\<lparr> systemCache = initialCache, inflight = [], resuming = [], sent = [] \<rparr>" events]
  by (simp add: one_generation_def generations_def)

lemma updateSystemCache_fields:
  "lastUpdate (updateSystemCache env c) = now_lastUpdate env"
  "timestamp (usage (updateSystemCache env c)) = now_timestamp env"
  "processes (updateSystemCache env c) = getProcesses env"
  by (simp_all add: updateSystemCache_def Let_def)

text \<open>On a server with no refresh in flight and no route about to resume, a request,
  the completion of the refresh it may have started and the resumption of its route are
  together the route of \<open>api_usage\<close> or \<open>api_processes\<close>.\<close>

lemma step_as_route:
  assumes "inflight s = []" "resuming s = []"
  shows "step (step (step s (Arrives UsageRequest now env)) (Completes 0)) (Resumes 0)
           = s \<lparr> systemCache := snd (api_usage now env (systemCache s)),
                 sent := sent s @ [UsageReply (fst (api_usage now env (systemCache s)))] \<rparr>"
    and "step (step (step s (Arrives ProcessesRequest now env)) (Completes 0)) (Resumes 0)
           = s \<lparr> systemCache := snd (api_processes now env (systemCache s)),
                 sent := sent s @ [ProcessesReply (fst (fst (api_processes now env (systemCache s))))
                                     (snd (fst (api_processes now env (systemCache s))))] \<rparr>"
  using assms by (simp_all add: api_usage_def api_processes_def Let_def)

subsection \<open>The cache after a refresh\<close>

text \<open>
  C3, as amended. Whatever requests and timer ticks arrive and in whatever order the
  refreshes in flight complete and the routes resume, the cache is at every moment the
  initial record or the record built by one refresh, whole: its usage, its processes
  and its \<open>lastUpdate\<close> come from the same refresh, and every reply carries the usage or
  the processes of one such record, so that no reader observes a usage paired with the
  processes of another refresh. \<open>timestamp\<close> and \<open>lastUpdate\<close> are two readings of the
  clock, one after the other: they are equal when the two readings of every refresh are,
  and \<open>timestamp\<close> is not after \<open>lastUpdate\<close> when the clock does not go back between
  them.
\<close>

theorem cache_holds_one_refresh:
  "(systemCache (run events) = initialCache
      \<or> (\<exists>env \<in> set (arrived events).
            systemCache (run events) = updateSystemCache env initialCache
          \<and> usage (systemCache (run events)) = usage (updateSystemCache env initialCache)
          \<and> processes (systemCache (run events)) = getProcesses env
          \<and> timestamp (usage (systemCache (run events))) = now_timestamp env
          \<and> lastUpdate (systemCache (run events)) = now_lastUpdate env))
   \<and> (\<forall>rep \<in> set (sent (run events)).
         \<exists>c \<in> set (generations (arrived events)).
           rep = UsageReply (usage c) \<or> rep = ProcessesReply (processes c) (length (processes c)))
   \<and> ((\<forall>env \<in> set (arrived events). now_timestamp env = now_lastUpdate env) \<longrightarrow>
         timestamp (usage (systemCache (run events))) = lastUpdate (systemCache (run events)))
   \<and> ((\<forall>env \<in> set (arrived events). now_timestamp env \<le> now_lastUpdate env) \<longrightarrow>
         timestamp (usage (systemCache (run events))) \<le> lastUpdate (systemCache (run events)))"
proof -
  have inv: "one_generation (arrived events) (run events)" by (rule run_one_generation)
  then have gen: "systemCache (run events) \<in> set (generations (arrived events))"
    by (simp add: one_generation_def)
  then consider "systemCache (run events) = initialCache"
    | env where "env \<in> set (arrived events)" "systemCache (run events) = updateSystemCache env initialCache"
    by (auto simp: generations_def)
  then have 1: "systemCache (run events) = initialCache
      \<or> (\<exists>env \<in> set (arrived events).
            systemCache (run events) = updateSystemCache env initialCache
          \<and> usage (systemCache (run events)) = usage (updateSystemCache env initialCache)
          \<and> processes (systemCache (run events)) = getProcesses env
          \<and> timestamp (usage (systemCache (run events))) = now_timestamp env
          \<and> lastUpdate (systemCache (run events)) = now_lastUpdate env)"
  proof cases
    case 1
    then show ?thesis by simp
  next
    case 2
    then show ?thesis
      by (intro disjI2 bexI [of _ env]) (simp_all add: updateSystemCache_fields)
  qed
  have 2: "\<forall>rep \<in> set (sent (run events)).
         \<exists>c \<in> set (generations (arrived events)).
           rep = UsageReply (usage c) \<or> rep = ProcessesReply (processes c) (length (processes c))"
    using inv by (simp add: one_generation_def)
  have 3: "timestamp (usage (systemCache (run events))) = lastUpdate (systemCache (run events))"
    if "\<forall>env \<in> set (arrived events). now_timestamp env = now_lastUpdate env"
    using gen that by (auto simp: generations_def initialCache_def updateSystemCache_fields)
  have 4: "timestamp (usage (systemCache (run events))) \<le> lastUpdate (systemCache (run events))"
    if "\<forall>env \<in> set (arrived events). now_timestamp env \<le> now_lastUpdate env"
    using gen that by (auto simp: generations_def initialCache_def updateSystemCache_fields)
  show ?thesis using 1 2 3 4 by blast
qed

lemma run_race:
  "systemCache (run race) = updateSystemCache env_later (updateSystemCache env_unix initialCache)"
  "sent (run race) =
     [UsageReply (usage (updateSystemCache env_unix initialCache)),
      ProcessesReply (getProcesses env_later) (length (getProcesses env_later)),
      UsageReply (usage (updateSystemCache env_later (updateSystemCache env_unix initialCache)))]"
  "arrived race = [env_unix, env_later, env_later]"
  by (simp_all add: run_def race_def initialCache_def Let_def env_unix_def env_later_def
      updateSystemCache_fields)

text \<open>In the run of the two overlapping refreshes every refresh reads the same
  millisecond twice; the cache ends as the record of the second refresh, and three
  replies were sent.\<close>

theorem cache_holds_one_refresh_witness:
  "timestamp (usage (systemCache (run race))) = lastUpdate (systemCache (run race))
   \<and> lastUpdate (systemCache (run race)) = 1700000004100
   \<and> processes (systemCache (run race)) = getProcesses env_later
   \<and> length (sent (run race)) = 3"
proof -
  have eq: "\<forall>env \<in> set (arrived race). now_timestamp env = now_lastUpdate env"
    by (simp add: run_race env_unix_def env_later_def)
  have "timestamp (usage (systemCache (run race))) = lastUpdate (systemCache (run race))"
    using cache_holds_one_refresh [of race] eq by blast
  then show ?thesis
    by (simp add: run_race updateSystemCache_fields) (simp add: env_later_def)
qed

text \<open>The claim as stated fails: when the clock passes to the next millisecond between
  the two readings, \<open>timestamp\<close> is 1700000000999 and \<open>lastUpdate\<close> is 1700000001000,
  after the refresh by itself and after a run in which the timer starts it.\<close>

theorem updateSystemCache_timestamp_differs:
  "timestamp (usage (updateSystemCache env_tick initialCache))
     \<noteq> lastUpdate (updateSystemCache env_tick initialCache)
   \<and> timestamp (usage (systemCache (run [Arrives TimerRefresh 1699999999900 env_tick, Completes 0])))
     \<noteq> lastUpdate (systemCache (run [Arrives TimerRefresh 1699999999900 env_tick, Completes 0]))"
  by (simp add: run_def Let_def env_tick_def updateSystemCache_fields)



section \<open>Properties of the memory reader\<close>

lemma jdiv_100: "jdiv (Fin (of_int k)) (Fin 100) = rnd (of_int k / 100)"
  by simp

lemma GB_hundredths:
  assumes "b < 2 ^ 53"
  obtains r where "jmul (Fin (of_nat b / 2 ^ 30)) (Fin 100) = Fin r" "0 \<le> r" "r \<le> 2 ^ 30"
    "bytes_to_GB b = rnd (of_int \<lfloor>r + 1 / 2\<rfloor> / 100)"
proof -
  define A :: rat where "A = of_nat b / 2 ^ 30 * 100"
  have "(of_nat b :: rat) < of_nat (2 ^ 53)" using assms by (simp only: of_nat_less_iff)
  then have b53: "(of_nat b :: rat) < 2 ^ 53" by simp
  have A0: "0 \<le> A" by (simp add: A_def)
  have "A \<le> 2 ^ 53 / 2 ^ 30 * 100" unfolding A_def using b53 by (simp add: field_simps)
  also have "\<dots> \<le> 2 ^ 30 - 1" by simp
  finally have A30: "A \<le> 2 ^ 30 - 1" .
  have e1: "rnd 0 = Fin 0" by simp
  have "rnd (of_int (2 ^ 30 - 1)) = Fin (of_int (2 ^ 30 - 1))" by (intro rnd_of_int) simp
  then have e2: "rnd (2 ^ 30 - 1) = Fin (2 ^ 30 - 1)" by simp
  obtain r where r: "rnd A = Fin r" "0 \<le> r" "r \<le> 2 ^ 30 - 1"
    using rnd_between [OF A0 A30 e1 e2] by blast
  have m: "jmul (Fin (of_nat b / 2 ^ 30)) (Fin 100) = Fin r"
    by (simp only: jmul.simps A_def [symmetric] r(1))
  have "bytes_to_GB b = jdiv (Math_round (Fin r)) (Fin 100)"
    unfolding bytes_to_GB_def div_1024_cubed [OF assms] m ..
  also have "\<dots> = rnd (of_int \<lfloor>r + 1 / 2\<rfloor> / 100)"
    by (simp only: Math_round.simps jdiv_100)
  finally show ?thesis using that [OF m r(2)] r(3) by simp
qed

lemma bytes_to_GB_pair:
  assumes "f \<le> t" "t < 2 ^ 53"
  obtains kf kt where "bytes_to_GB f = rnd (of_int kf / 100)" "bytes_to_GB t = rnd (of_int kt / 100)"
    "0 \<le> kf" "kf \<le> kt" "kt \<le> 2 ^ 30" "5368710 \<le> t \<Longrightarrow> 1 \<le> kt"
proof -
  have f53: "f < 2 ^ 53" using assms by simp
  obtain rf where rf: "jmul (Fin (of_nat f / 2 ^ 30)) (Fin 100) = Fin rf" "0 \<le> rf"
      "bytes_to_GB f = rnd (of_int \<lfloor>rf + 1 / 2\<rfloor> / 100)"
    using GB_hundredths [OF f53] by blast
  obtain rt where rt: "jmul (Fin (of_nat t / 2 ^ 30)) (Fin 100) = Fin rt" "rt \<le> 2 ^ 30"
      "bytes_to_GB t = rnd (of_int \<lfloor>rt + 1 / 2\<rfloor> / 100)"
    using GB_hundredths [OF assms(2)] by blast
  have "(of_nat f :: rat) \<le> of_nat t" using assms(1) by (simp only: of_nat_le_iff)
  then have "(of_nat f :: rat) / 2 ^ 30 * 100 \<le> of_nat t / 2 ^ 30 * 100"
    by (simp add: divide_right_mono)
  then have "jle (rnd (of_nat f / 2 ^ 30 * 100)) (rnd (of_nat t / 2 ^ 30 * 100))"
    by (rule rnd_mono)
  then have "jle (Fin rf) (Fin rt)" using rf(1) rt(1) by (simp only: jmul.simps)
  then have le: "rf \<le> rt" by simp
  have 1: "0 \<le> \<lfloor>rf + 1 / 2\<rfloor>" using rf(2) by simp
  have 2: "\<lfloor>rf + 1 / 2\<rfloor> \<le> \<lfloor>rt + 1 / 2\<rfloor>" using le by (intro floor_mono) simp
  have "rt + 1 / 2 < of_int (2 ^ 30 + 1)" using rt(2) by simp
  then have "\<lfloor>rt + 1 / 2\<rfloor> < 2 ^ 30 + 1" by (simp only: floor_less_iff)
  then have 3: "\<lfloor>rt + 1 / 2\<rfloor> \<le> 2 ^ 30" by simp
  have 4: "1 \<le> \<lfloor>rt + 1 / 2\<rfloor>" if "5368710 \<le> t"
  proof -
    have "(of_nat 5368710 :: rat) \<le> of_nat t" using that by (simp only: of_nat_le_iff)
    then have "(5368710 :: rat) \<le> of_nat t" by simp
    then have "(1 / 2 :: rat) \<le> of_nat t / 2 ^ 30 * 100" by simp
    then have "jle (rnd (1 / 2)) (rnd (of_nat t / 2 ^ 30 * 100))" by (rule rnd_mono)
    moreover have "rnd (1 / 2) = Fin (1 / 2)" using rnd_dyadic [of 1 1] by simp
    ultimately have "jle (Fin (1 / 2)) (Fin rt)" using rt(1) by (simp only: jmul.simps)
    then have "1 \<le> rt + 1 / 2" by simp
    then show ?thesis by (simp add: le_floor_iff)
  qed
  show ?thesis using that [OF rf(3) rt(3) 1 2 3] 4 by blast
qed

lemma used_chain:
  assumes kt: "\<bar>kt\<bar> \<le> 2 ^ 30" and kf: "\<bar>kf\<bar> \<le> 2 ^ 30"
    and T: "rnd (of_int kt / 100) = Fin T" and F: "rnd (of_int kf / 100) = Fin F"
  shows "jdiv (Math_round (jmul (jsub (Fin T) (Fin F)) (Fin 100))) (Fin 100)
           = rnd (of_int (kt - kf) / 100)"
proof -
  have bt: "\<bar>of_int kt / 100 :: rat\<bar> \<le> 2 ^ 32" "\<bar>of_int kt / 100 :: rat\<bar> \<le> 2 ^ 24"
  proof -
    have "(of_int \<bar>kt\<bar> :: rat) \<le> of_int (2 ^ 30)" using kt by (simp only: of_int_le_iff)
    then have "\<bar>of_int kt :: rat\<bar> \<le> 2 ^ 30" by simp
    then show "\<bar>of_int kt / 100 :: rat\<bar> \<le> 2 ^ 32" "\<bar>of_int kt / 100 :: rat\<bar> \<le> 2 ^ 24"
      by simp_all
  qed
  have bf: "\<bar>of_int kf / 100 :: rat\<bar> \<le> 2 ^ 32" "\<bar>of_int kf / 100 :: rat\<bar> \<le> 2 ^ 24"
  proof -
    have "(of_int \<bar>kf\<bar> :: rat) \<le> of_int (2 ^ 30)" using kf by (simp only: of_int_le_iff)
    then have "\<bar>of_int kf :: rat\<bar> \<le> 2 ^ 30" by simp
    then show "\<bar>of_int kf / 100 :: rat\<bar> \<le> 2 ^ 32" "\<bar>of_int kf / 100 :: rat\<bar> \<le> 2 ^ 24"
      by simp_all
  qed
  have bt': "\<bar>of_int kt / 100 :: rat\<bar> \<le> 16777216" using bt(2) by simp
  have bf': "\<bar>of_int kf / 100 :: rat\<bar> \<le> 16777216" using bf(2) by simp
  obtain T' where "rnd (of_int kt / 100) = Fin T'" "\<bar>T' - of_int kt / 100\<bar> \<le> 1 / 2 ^ 20"
    using rnd_grid [OF bt(1)] by blast
  then have eT: "\<bar>T - of_int kt / 100\<bar> \<le> 1 / 1048576" using T by simp
  obtain F' where "rnd (of_int kf / 100) = Fin F'" "\<bar>F' - of_int kf / 100\<bar> \<le> 1 / 2 ^ 20"
    using rnd_grid [OF bf(1)] by blast
  then have eF: "\<bar>F - of_int kf / 100\<bar> \<le> 1 / 1048576" using F by simp
  have "\<bar>T + - F\<bar> \<le> 4294967296" using eT eF bt' bf' by linarith
  then have "\<bar>T + - F\<bar> \<le> 2 ^ 32" by simp
  then obtain d where d: "rnd (T + - F) = Fin d" "\<bar>d - (T + - F)\<bar> \<le> 1 / 2 ^ 20"
    using rnd_grid by blast
  have d': "\<bar>d - (T + - F)\<bar> \<le> 1 / 1048576" using d(2) by simp
  have diff: "(of_int (kt - kf) :: rat) / 100 = of_int kt / 100 - of_int kf / 100"
    by (simp add: diff_divide_distrib)
  have ed: "\<bar>d - of_int (kt - kf) / 100\<bar> \<le> 3 / 1048576"
    unfolding diff using eT eF d' by linarith
  have "\<bar>d * 100\<bar> \<le> 4294967296" using ed bt' bf' unfolding diff by linarith
  then have "\<bar>d * 100\<bar> \<le> 2 ^ 32" by simp
  then obtain p where p: "rnd (d * 100) = Fin p" "\<bar>p - d * 100\<bar> \<le> 1 / 2 ^ 20"
    using rnd_grid by blast
  have p': "\<bar>p - d * 100\<bar> \<le> 1 / 1048576" using p(2) by simp
  define K :: rat where "K = of_int (kt - kf)"
  have edK: "\<bar>d - K / 100\<bar> \<le> 3 / 1048576" using ed by (simp only: K_def)
  have "K \<le> p + 1 / 2" using p' edK by linarith
  moreover have "p + 1 / 2 < K + 1" using p' edK by linarith
  ultimately have fl: "\<lfloor>p + 1 / 2\<rfloor> = kt - kf" unfolding K_def by linarith
  have "jdiv (Math_round (jmul (jsub (Fin T) (Fin F)) (Fin 100))) (Fin 100)
      = jdiv (Math_round (Fin p)) (Fin 100)"
    by (simp only: jsub_def jneg.simps jadd.simps d(1) jmul.simps p(1))
  also have "\<dots> = rnd (of_int (kt - kf) / 100)"
    by (simp only: Math_round.simps fl jdiv_100)
  finally show ?thesis .
qed

lemma rnd_hundredths:
  assumes "\<bar>k\<bar> \<le> 2 ^ 30"
  obtains T where "rnd (of_int k / 100) = Fin T" "\<bar>T - of_int k / 100\<bar> \<le> 1 / 1048576"
    "0 \<le> k \<Longrightarrow> 0 \<le> T"
proof -
  have "(of_int \<bar>k\<bar> :: rat) \<le> of_int (2 ^ 30)" using assms by (simp only: of_int_le_iff)
  then have "\<bar>of_int k :: rat\<bar> \<le> 2 ^ 30" by simp
  then have "\<bar>of_int k / 100 :: rat\<bar> \<le> 2 ^ 32" by simp
  then obtain T where T: "rnd (of_int k / 100) = Fin T" "\<bar>T - of_int k / 100\<bar> \<le> 1 / 2 ^ 20"
    "0 \<le> (of_int k / 100 :: rat) \<Longrightarrow> 0 \<le> T"
    using rnd_grid by blast
  show ?thesis using that [OF T(1)] T(2,3) by simp
qed

lemma percent_int_range:
  assumes "0 < T" "0 \<le> U" "U \<le> T"
  shows "\<exists>n. Math_round (jmul (jdiv (Fin U) (Fin T)) (Fin 100)) = Fin (of_int n)
           \<and> 0 \<le> n \<and> n \<le> 100"
proof -
  have q0: "0 \<le> U / T" "U / T \<le> 1" using assms by simp_all
  have e0: "rnd 0 = Fin 0" by simp
  have e1: "rnd 1 = Fin 1" using rnd_of_int [of 1] by simp
  obtain q where q: "rnd (U / T) = Fin q" "0 \<le> q" "q \<le> 1"
    using rnd_between [OF q0 e0 e1] by blast
  have p0: "0 \<le> q * 100" "q * 100 \<le> 100" using q(2,3) by simp_all
  have e100: "rnd 100 = Fin 100" using rnd_of_int [of 100] by simp
  obtain p where p: "rnd (q * 100) = Fin p" "0 \<le> p" "p \<le> 100"
    using rnd_between [OF p0 e0 e100] by blast
  have "jdiv (Fin U) (Fin T) = Fin q" using assms(1) q(1) by simp
  then have "Math_round (jmul (jdiv (Fin U) (Fin T)) (Fin 100)) = Fin (of_int \<lfloor>p + 1 / 2\<rfloor>)"
    using p(1) by simp
  moreover have "0 \<le> \<lfloor>p + 1 / 2\<rfloor>" using p(2) by simp
  moreover have "\<lfloor>p + 1 / 2\<rfloor> \<le> 100" using p(3) by (simp add: floor_le_iff)
  ultimately show ?thesis by blast
qed

lemma times_100_wide:
  assumes "25 * n < 2 ^ 53"
  shows "jmul (Fin (of_nat n / 2 ^ 30)) (Fin 100) = Fin (of_nat n * 100 / 2 ^ 30)"
proof -
  have "\<bar>int (25 * n)\<bar> < 2 ^ 53" using assms by simp
  then have "rnd (of_int (int (25 * n)) / 2 ^ 28) = Fin (of_int (int (25 * n)) / 2 ^ 28)"
    by (rule rnd_dyadic) simp
  moreover have "(of_nat n :: rat) / 2 ^ 30 * 100 = of_int (int (25 * n)) / 2 ^ 28"
    by simp
  moreover have "(of_nat n :: rat) * 100 / 2 ^ 30 = of_int (int (25 * n)) / 2 ^ 28"
    by simp
  ultimately have "rnd (of_nat n / 2 ^ 30 * 100) = Fin (of_nat n * 100 / 2 ^ 30)"
    by (simp only:)
  then show ?thesis by (simp only: jmul.simps)
qed

lemma bytes_to_GB_wide:
  assumes "b < 2 ^ 48"
  shows "bytes_to_GB b = rnd (of_int (hundredths b) / 100)"
proof -
  have b53: "b < 2 ^ 53" using assms by simp
  have m: "jmul (Fin (of_nat b / 2 ^ 30)) (Fin 100) = Fin (of_nat b * 100 / 2 ^ 30)"
    using assms by (intro times_100_wide) simp
  have "bytes_to_GB b = jdiv (Math_round (Fin (of_nat b * 100 / 2 ^ 30))) (Fin 100)"
    unfolding bytes_to_GB_def div_1024_cubed [OF b53] m ..
  also have "\<dots> = rnd (of_int (hundredths b) / 100)"
    by (simp only: Math_round.simps jdiv_100 hundredths_def)
  finally show ?thesis .
qed

lemma hundredths_wide:
  assumes "b < 2 ^ 48"
  shows "0 \<le> hundredths b" "hundredths b \<le> 2 ^ 30"
proof -
  show "0 \<le> hundredths b" by (simp add: hundredths_def)
  have "(of_nat b :: rat) < of_nat (2 ^ 48)" using assms by (simp only: of_nat_less_iff)
  then have "(of_nat b :: rat) < 281474976710656" by simp
  then have "(of_nat b * 100 / 2 ^ 30 + 1 / 2 :: rat) < of_int (2 ^ 30)" by simp
  then have "hundredths b < 2 ^ 30" unfolding hundredths_def by (simp only: floor_less_iff)
  then show "hundredths b \<le> 2 ^ 30" by simp
qed

lemma hundredths_mono: "f \<le> t \<Longrightarrow> hundredths f \<le> hundredths t"
proof -
  assume "f \<le> t"
  then have "(of_nat f :: rat) \<le> of_nat t" by (simp only: of_nat_le_iff)
  then have "(of_nat f * 100 / 2 ^ 30 + 1 / 2 :: rat) \<le> of_nat t * 100 / 2 ^ 30 + 1 / 2"
    by (simp add: divide_right_mono)
  then show ?thesis unfolding hundredths_def by (rule floor_mono)
qed

lemma hundredths_pos: "5368710 \<le> t \<Longrightarrow> 1 \<le> hundredths t"
proof -
  assume "5368710 \<le> t"
  then have "(of_nat 5368710 :: rat) \<le> of_nat t" by (simp only: of_nat_le_iff)
  then have "(5368710 :: rat) \<le> of_nat t" by simp
  then have "(of_int 1 :: rat) \<le> of_nat t * 100 / 2 ^ 30 + 1 / 2" by simp
  then show ?thesis unfolding hundredths_def by (simp only: le_floor_iff)
qed

lemma percent_near:
  assumes kt: "1 \<le> kt" "kt \<le> 2 ^ 30" and d: "1 \<le> d" "d \<le> kt"
    and T: "rnd (of_int kt / 100) = Fin T" and U: "rnd (of_int d / 100) = Fin U"
  obtains p where "jmul (jdiv (Fin U) (Fin T)) (Fin 100) = Fin p"
    "\<bar>p - 100 * of_int d / of_int kt\<bar> \<le> 1 / 2 ^ 40"
proof -
  define t :: rat where "t = of_int kt / 100"
  define u :: rat where "u = of_int d / 100"
  define \<rho> where "\<rho> = u / t"
  define lo :: rat where "lo = 1 - 1 / 2 ^ 53"
  define hi :: rat where "hi = 1 + 1 / 2 ^ 53"
  have c: "0 < lo" "lo \<le> 1" "1 \<le> hi" "hi \<le> 2" "0 < hi"
    by (simp_all add: lo_def hi_def)
  have kt_r: "(1::rat) \<le> of_int kt" "(of_int kt :: rat) \<le> 2 ^ 30"
  proof -
    have "(of_int 1 :: rat) \<le> of_int kt" using kt(1) by (simp only: of_int_le_iff)
    then show "(1::rat) \<le> of_int kt" by simp
    have "(of_int kt :: rat) \<le> of_int (2 ^ 30)" using kt(2) by (simp only: of_int_le_iff)
    then show "(of_int kt :: rat) \<le> 2 ^ 30" by simp
  qed
  have d_r: "(1::rat) \<le> of_int d" "(of_int d :: rat) \<le> of_int kt"
  proof -
    have "(of_int 1 :: rat) \<le> of_int d" using d(1) by (simp only: of_int_le_iff)
    then show "(1::rat) \<le> of_int d" by simp
    show "(of_int d :: rat) \<le> of_int kt" using d(2) by (simp only: of_int_le_iff)
  qed
  have t_b: "1 / 100 \<le> t" "t \<le> 2 ^ 30" using kt_r by (simp_all add: t_def)
  have u_b: "1 / 100 \<le> u" "u \<le> t" using d_r by (simp_all add: u_def t_def)
  have tpos: "0 < t" and upos: "0 < u" using t_b(1) u_b(1) by linarith+
  have rho: "0 < \<rho>" "\<rho> \<le> 1" "1 / 2 ^ 37 \<le> \<rho>"
  proof -
    show "0 < \<rho>" unfolding \<rho>_def using tpos upos by simp
    show "\<rho> \<le> 1" unfolding \<rho>_def using tpos u_b(2) by simp
    have "(1 / 100) / 2 ^ 30 \<le> u / t" using t_b(2) u_b(1) tpos by (intro frac_le) simp_all
    then show "1 / 2 ^ 37 \<le> \<rho>" unfolding \<rho>_def by simp
  qed
  have "1 / 2 ^ 40 \<le> t" "t \<le> 2 ^ 40" using t_b by simp_all
  then obtain T' where "rnd t = Fin T'" "\<bar>T' - t\<bar> \<le> t / 2 ^ 53" by (rule rnd_rel_mid)
  then have "\<bar>T - t\<bar> \<le> t / 2 ^ 53" using T by (simp add: t_def)
  then have Tb: "t * lo \<le> T" "T \<le> t * hi" unfolding lo_def hi_def by (rule rel_bounds)+
  have "1 / 2 ^ 40 \<le> u" "u \<le> 2 ^ 40" using u_b t_b by simp_all
  then obtain U' where "rnd u = Fin U'" "\<bar>U' - u\<bar> \<le> u / 2 ^ 53" by (rule rnd_rel_mid)
  then have "\<bar>U - u\<bar> \<le> u / 2 ^ 53" using U by (simp add: u_def)
  then have Ub: "u * lo \<le> U" "U \<le> u * hi" unfolding lo_def hi_def by (rule rel_bounds)+
  have tlo: "0 < t * lo" using tpos c(1) by simp
  have Tpos: "0 < T" using tlo Tb(1) by linarith
  have Upos: "0 \<le> U"
  proof -
    have "0 \<le> u * lo" using upos c(1) by simp
    then show ?thesis using Ub(1) by linarith
  qed
  define Q where "Q = U / T"
  have "U / T \<le> (u * hi) / (t * lo)"
  proof (intro frac_le)
    show "0 \<le> u * hi" using upos c(5) by simp
    show "U \<le> u * hi" by (rule Ub(2))
    show "0 < t * lo" by (rule tlo)
    show "t * lo \<le> T" by (rule Tb(1))
  qed
  also have "\<dots> = \<rho> * (hi / lo)" by (simp add: \<rho>_def)
  finally have Q_hi: "Q \<le> \<rho> * (hi / lo)" by (simp only: Q_def)
  have "(u * lo) / (t * hi) \<le> U / T"
  proof (intro frac_le)
    show "0 \<le> U" by (rule Upos)
    show "u * lo \<le> U" by (rule Ub(1))
    show "0 < T" by (rule Tpos)
    show "T \<le> t * hi" by (rule Tb(2))
  qed
  moreover have "(u * lo) / (t * hi) = \<rho> * (lo / hi)" by (simp add: \<rho>_def)
  ultimately have Q_lo: "\<rho> * (lo / hi) \<le> Q" by (simp only: Q_def)
  have r1: "1 / 2 \<le> lo / hi" "hi / lo \<le> 2" "0 \<le> hi / lo"
    by (simp_all add: lo_def hi_def)
  have "\<rho> * (1 / 2) \<le> \<rho> * (lo / hi)" using rho(1) r1(1) by (intro mult_left_mono) simp_all
  then have Q1: "1 / 2 ^ 38 \<le> Q" using Q_lo rho(3) by simp
  have "\<rho> * (hi / lo) \<le> 1 * 2" using rho(1,2) r1(2,3) by (intro mult_mono) simp_all
  then have Q2: "Q \<le> 2" using Q_hi by simp
  have "1 / 2 ^ 40 \<le> Q" "Q \<le> 2 ^ 40" using Q1 Q2 by simp_all
  then obtain q where q: "rnd Q = Fin q" "\<bar>q - Q\<bar> \<le> Q / 2 ^ 53" by (rule rnd_rel_mid)
  have qb: "Q * lo \<le> q" "q \<le> Q * hi" using q(2) unfolding lo_def hi_def by (rule rel_bounds)+
  have Qpos: "0 < Q" using Q1 by (simp add: less_le_trans [of 0 "1 / 2 ^ 38"])
  have q_hi: "q \<le> \<rho> * (hi / lo) * hi"
  proof -
    have "Q * hi \<le> \<rho> * (hi / lo) * hi" using Q_hi c(5) by (intro mult_right_mono) simp_all
    then show ?thesis using qb(2) by linarith
  qed
  have q_lo: "\<rho> * (lo / hi) * lo \<le> q"
  proof -
    have "\<rho> * (lo / hi) * lo \<le> Q * lo" using Q_lo c(1) by (intro mult_right_mono) simp_all
    then show ?thesis using qb(1) by linarith
  qed
  define P where "P = q * 100"
  have "Q * lo \<le> q" by (rule qb(1))
  moreover have "1 / 2 ^ 38 * (1 / 2) \<le> Q * lo"
    using Q1 c(1) by (intro mult_mono) (simp_all add: lo_def)
  ultimately have q1: "1 / 2 ^ 39 \<le> q" by simp
  have "Q * hi \<le> 2 * 2" using Q2 c(4,5) Qpos by (intro mult_mono) simp_all
  then have q2: "q \<le> 4" using qb(2) by linarith
  have P1: "1 / 2 ^ 39 \<le> P" "P \<le> 400" using q1 q2 by (simp_all add: P_def)
  have "1 / 2 ^ 40 \<le> P" "P \<le> 2 ^ 40" using P1 by simp_all
  then obtain p where p: "rnd P = Fin p" "\<bar>p - P\<bar> \<le> P / 2 ^ 53" by (rule rnd_rel_mid)
  have pb: "P * lo \<le> p" "p \<le> P * hi" using p(2) unfolding lo_def hi_def by (rule rel_bounds)+
  define cp where "cp = hi / lo * hi * hi"
  define cm where "cm = lo / hi * lo * lo"
  have cc: "cp \<le> 1 + 1 / 2 ^ 50" "1 - 1 / 2 ^ 50 \<le> cm"
    by (simp_all add: cp_def cm_def lo_def hi_def)
  have hpos: "0 \<le> hi" and lpos: "0 \<le> lo" using c(1,5) by simp_all
  have p_hi: "p \<le> 100 * \<rho> * cp"
  proof -
    have a: "q * 100 \<le> \<rho> * (hi / lo) * hi * 100" by (rule mult_right_mono [OF q_hi]) simp
    have "q * 100 * hi \<le> \<rho> * (hi / lo) * hi * 100 * hi" by (rule mult_right_mono [OF a hpos])
    moreover have "\<rho> * (hi / lo) * hi * 100 * hi = 100 * \<rho> * cp" by (simp add: cp_def)
    ultimately have "P * hi \<le> 100 * \<rho> * cp" by (simp only: P_def)
    then show ?thesis using pb(2) by linarith
  qed
  have p_lo: "100 * \<rho> * cm \<le> p"
  proof -
    have a: "\<rho> * (lo / hi) * lo * 100 \<le> q * 100" by (rule mult_right_mono [OF q_lo]) simp
    have "\<rho> * (lo / hi) * lo * 100 * lo \<le> q * 100 * lo" by (rule mult_right_mono [OF a lpos])
    moreover have "\<rho> * (lo / hi) * lo * 100 * lo = 100 * \<rho> * cm" by (simp add: cm_def)
    ultimately have "100 * \<rho> * cm \<le> P * lo" by (simp only: P_def)
    then show ?thesis using pb(1) by linarith
  qed
  have "100 * \<rho> * cp \<le> 100 * \<rho> * (1 + 1 / 2 ^ 50)"
    using rho(1) cc(1) by (intro mult_left_mono) simp_all
  also have "\<dots> = 100 * \<rho> + \<rho> * (100 / 2 ^ 50)" by (simp add: algebra_simps)
  also have "\<dots> \<le> 100 * \<rho> + 1 * (100 / 2 ^ 50)"
    using rho(2) by (intro add_left_mono mult_right_mono) simp_all
  finally have up: "p \<le> 100 * \<rho> + 100 / 2 ^ 50" using p_hi by linarith
  have "100 * \<rho> * (1 - 1 / 2 ^ 50) \<le> 100 * \<rho> * cm"
    using rho(1) cc(2) by (intro mult_left_mono) simp_all
  moreover have "100 * \<rho> * (1 - 1 / 2 ^ 50) = 100 * \<rho> - \<rho> * (100 / 2 ^ 50)"
    by (simp add: algebra_simps)
  moreover have "\<rho> * (100 / 2 ^ 50) \<le> 1 * (100 / 2 ^ 50)"
    using rho(2) by (intro mult_right_mono) simp_all
  ultimately have dn: "100 * \<rho> - 100 / 2 ^ 50 \<le> p" using p_lo by linarith
  have "(100 :: rat) / 2 ^ 50 \<le> 1 / 2 ^ 40" by simp
  then have near: "\<bar>p - 100 * \<rho>\<bar> \<le> 1 / 2 ^ 40" using up dn by linarith
  have "100 * \<rho> = 100 * of_int d / of_int kt" by (simp add: \<rho>_def u_def t_def)
  then have near': "\<bar>p - 100 * of_int d / of_int kt\<bar> \<le> 1 / 2 ^ 40" using near by simp
  have "jdiv (Fin U) (Fin T) = Fin q" using Tpos q(1) by (simp add: Q_def)
  then have "jmul (jdiv (Fin U) (Fin T)) (Fin 100) = Fin p" using p(1) by (simp add: P_def)
  then show ?thesis using that near' by blast
qed

lemma round_near:
  fixes p :: rat
  assumes kt: "1 \<le> kt" "kt \<le> 2 ^ 30"
    and near: "\<bar>p - 100 * of_int d / of_int kt\<bar> \<le> 1 / 2 ^ 40"
  shows "\<lfloor>p + 1 / 2\<rfloor> = round_half_up (100 * of_int d / of_int kt)
       \<or> \<lfloor>p + 1 / 2\<rfloor> = round_half_up (100 * of_int d / of_int kt) - 1"
    and "of_int (round_half_up (100 * of_int d / of_int kt)) \<noteq> (100 * of_int d / of_int kt + 1 / 2 :: rat)
       \<Longrightarrow> \<lfloor>p + 1 / 2\<rfloor> = round_half_up (100 * of_int d / of_int kt)"
proof -
  define E :: rat where "E = 100 * of_int d / of_int kt + 1 / 2"
  define N where "N = 200 * d + kt"
  define D where "D = 2 * kt"
  define m where "m = N div D"
  define r where "r = N mod D"
  define \<delta> :: rat where "\<delta> = 1 / 2 ^ 40"
  define R :: rat where "R = of_int r / of_int D"
  have Dpos: "0 < D" using kt(1) by (simp add: D_def)
  have Dr: "(0::rat) < of_int D" using Dpos by simp
  have "(of_int D :: rat) \<le> of_int (2 ^ 31)" using kt(2) unfolding D_def by (simp only: of_int_le_iff) simp
  then have D31: "(of_int D :: rat) \<le> 2 ^ 31" by simp
  have ktr: "(of_int kt :: rat) \<noteq> 0" using kt(1) by simp
  have EN: "E = of_int N / of_int D"
    unfolding E_def N_def D_def using ktr by (simp add: field_simps)
  have fl: "\<lfloor>E\<rfloor> = m"
    unfolding EN m_def by (rule floor_divide_of_int_eq)
  have rhu: "round_half_up (100 * of_int d / of_int kt) = m"
    unfolding round_half_up_def E_def [symmetric] by (rule fl)
  have "N = m * D + r" unfolding m_def r_def by simp
  then have "(of_int N :: rat) = of_int m * of_int D + of_int r" by (simp only: of_int_add of_int_mult)
  then have ER: "E = of_int m + R" unfolding EN R_def using Dr by (simp add: field_simps)
  have r0: "0 \<le> r" "r < D" unfolding r_def using Dpos by simp_all
  have pE: "E - \<delta> \<le> p + 1 / 2" "p + 1 / 2 \<le> E + \<delta>"
    using near unfolding E_def \<delta>_def by linarith+
  have \<delta>: "0 < \<delta>" "\<delta> < 1 / 2 ^ 31" "\<delta> < 1 / 2" by (simp_all add: \<delta>_def)
  have nontie: "\<lfloor>p + 1 / 2\<rfloor> = m" if "r \<noteq> 0"
  proof -
    have r1: "1 \<le> r" "r \<le> D - 1" using that r0 by simp_all
    have "(of_int 1 :: rat) \<le> of_int r" using r1(1) by (simp only: of_int_le_iff)
    then have "(1::rat) / of_int D \<le> R" unfolding R_def using Dr by (simp add: divide_right_mono)
    moreover have "(1::rat) / 2 ^ 31 \<le> 1 / of_int D" using D31 Dr by (simp add: frac_le)
    ultimately have lo: "1 / 2 ^ 31 \<le> R" by linarith
    have "(of_int r :: rat) \<le> of_int (D - 1)" using r1(2) by (simp only: of_int_le_iff)
    then have "R \<le> (of_int D - 1) / of_int D" unfolding R_def using Dr by (simp add: divide_right_mono)
    also have "\<dots> = 1 - 1 / of_int D" using Dr by (simp add: field_simps)
    also have "\<dots> \<le> 1 - 1 / 2 ^ 31" using D31 Dr by (simp add: frac_le)
    finally have hi: "R \<le> 1 - 1 / 2 ^ 31" .
    have "of_int m \<le> p + 1 / 2" "p + 1 / 2 < of_int m + 1"
      using pE ER lo hi \<delta>(2) by linarith+
    then show ?thesis by linarith
  qed
  have tie: "\<lfloor>p + 1 / 2\<rfloor> = m \<or> \<lfloor>p + 1 / 2\<rfloor> = m - 1" if "r = 0"
  proof -
    have "R = 0" using that by (simp add: R_def)
    then have "of_int m - \<delta> \<le> p + 1 / 2" "p + 1 / 2 \<le> of_int m + \<delta>"
      using pE ER by simp_all
    then have a: "of_int m - 1 \<le> p + 1 / 2" "p + 1 / 2 < of_int m + 1"
      using \<delta>(3) by linarith+
    show ?thesis
    proof (cases "of_int m \<le> p + 1 / 2")
      case True
      then have "\<lfloor>p + 1 / 2\<rfloor> = m" using a(2) by linarith
      then show ?thesis by simp
    next
      case False
      then have "of_int (m - 1) \<le> p + 1 / 2" "p + 1 / 2 < of_int (m - 1) + 1"
        using a(1) by simp_all
      then have "\<lfloor>p + 1 / 2\<rfloor> = m - 1" by (simp only: floor_unique)
      then show ?thesis by simp
    qed
  qed
  show "\<lfloor>p + 1 / 2\<rfloor> = round_half_up (100 * of_int d / of_int kt)
       \<or> \<lfloor>p + 1 / 2\<rfloor> = round_half_up (100 * of_int d / of_int kt) - 1"
    unfolding rhu using nontie tie by blast
  show "\<lfloor>p + 1 / 2\<rfloor> = round_half_up (100 * of_int d / of_int kt)"
    if "of_int (round_half_up (100 * of_int d / of_int kt)) \<noteq> (100 * of_int d / of_int kt + 1 / 2 :: rat)"
  proof -
    have "of_int m \<noteq> E" using that unfolding rhu E_def .
    then have "R \<noteq> 0" using ER by simp
    then have "r \<noteq> 0" by (auto simp: R_def)
    then show ?thesis unfolding rhu by (rule nontie)
  qed
qed

subsection \<open>The result of \<open>getMemoryUsage\<close>\<close>

text \<open>
  C10. The division by \<open>totalMemGB\<close> is not guarded. When the total memory is below
  5368710 bytes it rounds to 0 GB, and \<open>usagePercent\<close> is then not a finite number:
  it is NaN for every reading with \<open>free \<le> total\<close>.
\<close>

theorem getMemoryUsage_zero_total_not_finite:
  assumes "total_bytes < 5368710"
  shows "mem_total (getMemoryUsage total_bytes free_bytes) = Fin 0
     \<and> \<not> is_finite (usagePercent (getMemoryUsage total_bytes free_bytes))
     \<and> (free_bytes \<le> total_bytes \<longrightarrow> usagePercent (getMemoryUsage total_bytes free_bytes) = NaN)"
proof -
  have t: "bytes_to_GB total_bytes = Fin 0" using assms by (rule bytes_to_GB_small)
  have 1: "mem_total (getMemoryUsage total_bytes free_bytes) = Fin 0"
    by (simp add: getMemoryUsage_def Let_def t)
  have 2: "\<not> is_finite (usagePercent (getMemoryUsage total_bytes free_bytes))"
    using usagePercent_zero_total [OF bytes_to_GB_nonneg [of free_bytes]]
    by (simp add: getMemoryUsage_def Let_def t)
  have 3: "usagePercent (getMemoryUsage total_bytes free_bytes) = NaN" if "free_bytes \<le> total_bytes"
  proof -
    have "bytes_to_GB free_bytes = Fin 0" using that assms by (intro bytes_to_GB_small) simp
    then show ?thesis
      unfolding getMemoryUsage_def Let_def t
      by (simp only: used_of_zero percent_of_zero memory_usage.simps)
  qed
  show ?thesis using 1 2 3 by blast
qed

theorem getMemoryUsage_zero_total_not_finite_witness:
  "(2 ^ 20 :: nat) < 5368710
     \<and> mem_total (getMemoryUsage (2 ^ 20) (2 ^ 19)) = Fin 0
     \<and> usagePercent (getMemoryUsage (2 ^ 20) (2 ^ 19)) = NaN"
  using getMemoryUsage_zero_total_not_finite [of "2 ^ 20" "2 ^ 19"] by simp

text \<open>
  C6, as amended. For byte counts below \<open>2 ^ 48\<close> (256 TiB), where the conversion to
  hundredths of a GB is exact: total and free are the numbers nearest to the byte counts
  rounded to two decimals of a GB, and used is the number nearest to the difference of
  these two rounded values (not to the rounded difference of the byte counts). When
  moreover the total is at least 5368710 bytes and \<open>free \<le> total\<close>, \<open>usagePercent\<close>
  is an integer in \<open>[0, 100]\<close>: it is used over total times 100, on the two-decimal
  values, rounded to the nearest integer, except that a value exactly halfway between
  two integers may go down instead of up.
\<close>

theorem getMemoryUsage_rounding_order:
  assumes "total_bytes < 2 ^ 48" "free_bytes < 2 ^ 48"
  shows "mem_total (getMemoryUsage total_bytes free_bytes)
           = rnd (of_int (hundredths total_bytes) / 100)
     \<and> mem_free (getMemoryUsage total_bytes free_bytes)
           = rnd (of_int (hundredths free_bytes) / 100)
     \<and> mem_used (getMemoryUsage total_bytes free_bytes)
           = rnd (of_int (hundredths total_bytes - hundredths free_bytes) / 100)
     \<and> (5368710 \<le> total_bytes \<and> free_bytes \<le> total_bytes \<longrightarrow>
          (\<exists>n. usagePercent (getMemoryUsage total_bytes free_bytes) = Fin (of_int n)
             \<and> 0 \<le> n \<and> n \<le> 100
             \<and> (n = round_half_up (usedPercent_exact total_bytes free_bytes)
                  \<or> n = round_half_up (usedPercent_exact total_bytes free_bytes) - 1)
             \<and> (of_int (round_half_up (usedPercent_exact total_bytes free_bytes))
                    \<noteq> usedPercent_exact total_bytes free_bytes + 1 / 2
                  \<longrightarrow> n = round_half_up (usedPercent_exact total_bytes free_bytes))))"
proof -
  define kt where "kt = hundredths total_bytes"
  define kf where "kf = hundredths free_bytes"
  define d where "d = kt - kf"
  have kt0: "0 \<le> kt" "kt \<le> 2 ^ 30" using hundredths_wide [OF assms(1)] by (simp_all add: kt_def)
  have kf0: "0 \<le> kf" "kf \<le> 2 ^ 30" using hundredths_wide [OF assms(2)] by (simp_all add: kf_def)
  have bt: "\<bar>kt\<bar> \<le> 2 ^ 30" and bf: "\<bar>kf\<bar> \<le> 2 ^ 30" using kt0 kf0 by simp_all
  have t: "bytes_to_GB total_bytes = rnd (of_int kt / 100)"
    unfolding kt_def using assms(1) by (rule bytes_to_GB_wide)
  have f: "bytes_to_GB free_bytes = rnd (of_int kf / 100)"
    unfolding kf_def using assms(2) by (rule bytes_to_GB_wide)
  obtain T where T: "rnd (of_int kt / 100) = Fin T" using rnd_hundredths [OF bt] by blast
  obtain F where F: "rnd (of_int kf / 100) = Fin F" using rnd_hundredths [OF bf] by blast
  have u: "jdiv (Math_round (jmul (jsub (Fin T) (Fin F)) (Fin 100))) (Fin 100)
             = rnd (of_int d / 100)"
    unfolding d_def using bt bf T F by (rule used_chain)
  have bd: "\<bar>d\<bar> \<le> 2 ^ 30" using kt0 kf0 by (simp add: d_def)
  obtain U where U: "rnd (of_int d / 100) = Fin U" using rnd_hundredths [OF bd] by blast
  have m: "getMemoryUsage total_bytes free_bytes
      = \<lparr> mem_total = Fin T, mem_used = Fin U, mem_free = Fin F,
          usagePercent = Math_round (jmul (jdiv (Fin U) (Fin T)) (Fin 100)) \<rparr>"
    unfolding getMemoryUsage_def Let_def t f T F u U ..
  have pc: "\<exists>n. Math_round (jmul (jdiv (Fin U) (Fin T)) (Fin 100)) = Fin (of_int n)
             \<and> 0 \<le> n \<and> n \<le> 100
             \<and> (n = round_half_up (usedPercent_exact total_bytes free_bytes)
                  \<or> n = round_half_up (usedPercent_exact total_bytes free_bytes) - 1)
             \<and> (of_int (round_half_up (usedPercent_exact total_bytes free_bytes))
                    \<noteq> usedPercent_exact total_bytes free_bytes + 1 / 2
                  \<longrightarrow> n = round_half_up (usedPercent_exact total_bytes free_bytes))"
    if big: "5368710 \<le> total_bytes" and le: "free_bytes \<le> total_bytes"
  proof -
    have kt1: "1 \<le> kt" unfolding kt_def using big by (rule hundredths_pos)
    have "kf \<le> kt" unfolding kf_def kt_def using le by (rule hundredths_mono)
    then have d0: "0 \<le> d" "d \<le> kt" using kf0 by (simp_all add: d_def)
    have "(of_int kt :: rat) \<noteq> 0" using kt1 by simp
    then have E: "usedPercent_exact total_bytes free_bytes = 100 * of_int d / of_int kt"
      unfolding usedPercent_exact_def kt_def [symmetric] kf_def [symmetric] d_def [symmetric]
      by simp
    have "(of_int 1 :: rat) \<le> of_int kt" using kt1 by (simp only: of_int_le_iff)
    then have "(1 / 128 :: rat) \<le> of_int kt / 100" by simp
    then have "jle (rnd (1 / 128)) (rnd (of_int kt / 100))" by (rule rnd_mono)
    moreover have "rnd (1 / 128) = Fin (1 / 128)" using rnd_dyadic [of 1 7] by simp
    ultimately have Tpos: "0 < T" using T by simp
    show ?thesis
    proof (cases "d = 0")
      case True
      then have "U = 0" using U by simp
      then have "jmul (jdiv (Fin U) (Fin T)) (Fin 100) = Fin 0" using Tpos by simp
      then have "Math_round (jmul (jdiv (Fin U) (Fin T)) (Fin 100)) = Fin (of_int 0)"
        by (simp only: Math_round_0 of_int_0)
      moreover have "\<lfloor>(1 / 2 :: rat)\<rfloor> = 0" by (simp add: floor_eq_iff)
      then have "round_half_up (usedPercent_exact total_bytes free_bytes) = 0"
        unfolding E using True by (simp add: round_half_up_def)
      ultimately show ?thesis by (intro exI [of _ 0]) simp
    next
      case False
      then have d1: "1 \<le> d" using d0(1) by simp
      obtain p where p: "jmul (jdiv (Fin U) (Fin T)) (Fin 100) = Fin p"
          "\<bar>p - 100 * of_int d / of_int kt\<bar> \<le> 1 / 2 ^ 40"
        using percent_near [OF kt1 kt0(2) d1 d0(2) T U] by blast
      define n where "n = \<lfloor>p + 1 / 2\<rfloor>"
      have r: "Math_round (jmul (jdiv (Fin U) (Fin T)) (Fin 100)) = Fin (of_int n)"
        by (simp only: p(1) Math_round.simps n_def)
      have "jle (rnd 0) (rnd (of_int d / 100))" using d0(1) by (intro rnd_mono) simp
      then have U0: "0 \<le> U" using U by simp
      have "(of_int d :: rat) \<le> of_int kt" using d0(2) by (simp only: of_int_le_iff)
      then have "(of_int d :: rat) / 100 \<le> of_int kt / 100" by (simp add: divide_right_mono)
      then have "jle (rnd (of_int d / 100)) (rnd (of_int kt / 100))" by (rule rnd_mono)
      then have UT: "U \<le> T" using U T by simp
      obtain n' where n': "Math_round (jmul (jdiv (Fin U) (Fin T)) (Fin 100)) = Fin (of_int n')"
          "0 \<le> n'" "n' \<le> 100"
        using percent_int_range [OF Tpos U0 UT] by blast
      have "n' = n" using n'(1) r by simp
      then have range: "0 \<le> n" "n \<le> 100" using n'(2,3) by simp_all
      have a: "n = round_half_up (usedPercent_exact total_bytes free_bytes)
             \<or> n = round_half_up (usedPercent_exact total_bytes free_bytes) - 1"
        unfolding E n_def using kt1 kt0(2) p(2) by (rule round_near(1))
      have b: "n = round_half_up (usedPercent_exact total_bytes free_bytes)"
        if "of_int (round_half_up (usedPercent_exact total_bytes free_bytes))
              \<noteq> usedPercent_exact total_bytes free_bytes + 1 / 2"
        using that unfolding E n_def by (rule round_near(2) [OF kt1 kt0(2) p(2)])
      show ?thesis using r range a b by blast
    qed
  qed
  show ?thesis
    unfolding m memory_usage.simps T F U kt_def [symmetric] kf_def [symmetric] d_def [symmetric]
    using pc by simp
qed

lemma hundredths_values:
  "hundredths 17179869184 = 1600" "hundredths 4294967296 = 400" "hundredths 14688788153 = 1368"
  by (simp_all add: hundredths_def floor_eq_iff)

text \<open>16 GiB of memory with 4 GiB free: 16, 4 and 12 GB, and 75 per cent.\<close>

theorem getMemoryUsage_rounding_order_witness:
  "mem_total (getMemoryUsage (16 * 2 ^ 30) (4 * 2 ^ 30)) = Fin 16
     \<and> mem_free (getMemoryUsage (16 * 2 ^ 30) (4 * 2 ^ 30)) = Fin 4
     \<and> mem_used (getMemoryUsage (16 * 2 ^ 30) (4 * 2 ^ 30)) = Fin 12
     \<and> usedPercent_exact (16 * 2 ^ 30) (4 * 2 ^ 30) = 75
     \<and> usagePercent (getMemoryUsage (16 * 2 ^ 30) (4 * 2 ^ 30)) = Fin 75"
proof -
  have e: "usedPercent_exact (16 * 2 ^ 30) (4 * 2 ^ 30) = 75"
    by (simp add: usedPercent_exact_def hundredths_values)
  have r: "round_half_up 75 = 75" by (simp add: round_half_up_def floor_eq_iff)
  have "\<exists>n. usagePercent (getMemoryUsage (16 * 2 ^ 30) (4 * 2 ^ 30)) = Fin (of_int n)
          \<and> n = 75"
    using getMemoryUsage_rounding_order [of "16 * 2 ^ 30" "4 * 2 ^ 30"]
    unfolding e r by auto
  then have p: "usagePercent (getMemoryUsage (16 * 2 ^ 30) (4 * 2 ^ 30)) = Fin 75" by auto
  show ?thesis
    using getMemoryUsage_rounding_order [of "16 * 2 ^ 30" "4 * 2 ^ 30"] rnd_dyadic [of 3 2] p e
    by (simp add: hundredths_values rnd_numeral)
qed

subsection \<open>Readings on which the rounding shows\<close>

lemma tie_GB:
  "bytes_to_GB 17179869184 = Fin 16"
  "bytes_to_GB 14688788153 = Fin (7701155362803548 / 2 ^ 49)"
  "rnd (of_int (1600 - 1368) / 100) = Fin (5224175567749775 / 2 ^ 51)"
proof -
  show "bytes_to_GB 17179869184 = Fin 16"
    using bytes_to_GB_wide [of 17179869184] by (simp add: hundredths_values rnd_numeral)
  show "bytes_to_GB 14688788153 = Fin (7701155362803548 / 2 ^ 49)"
    using bytes_to_GB_wide [of 14688788153] rnd_eval [of 49 "1368 / 100" 7701155362803548]
    by (simp add: hundredths_values)
  show "rnd (of_int (1600 - 1368) / 100) = Fin (5224175567749775 / 2 ^ 51)"
    using rnd_eval [of 51 "232 / 100" 5224175567749775] by simp
qed

lemma tie_used:
  "jdiv (Math_round (jmul (jsub (Fin 16) (Fin (7701155362803548 / 2 ^ 49))) (Fin 100))) (Fin 100)
     = Fin (5224175567749775 / 2 ^ 51)"
proof -
  have T: "rnd (of_int 1600 / 100) = Fin 16" by (simp add: rnd_numeral)
  have F: "rnd (of_int 1368 / 100) = Fin (7701155362803548 / 2 ^ 49)"
    using rnd_eval [of 49 "1368 / 100" 7701155362803548] by simp
  have "jdiv (Math_round (jmul (jsub (Fin 16) (Fin (7701155362803548 / 2 ^ 49))) (Fin 100))) (Fin 100)
      = rnd (of_int (1600 - 1368) / 100)"
    by (rule used_chain [OF _ _ T F]) simp_all
  then show ?thesis by (simp only: tie_GB(3))
qed

lemma tie_percent:
  "Math_round (jmul (jdiv (Fin (5224175567749775 / 2 ^ 51)) (Fin 16)) (Fin 100)) = Fin 14"
proof -
  have q: "jdiv (Fin (5224175567749775 / 2 ^ 51)) (Fin 16) = Fin (5224175567749775 / 2 ^ 55)"
    using rnd_dyadic [of 5224175567749775 55] by simp
  have p: "jmul (Fin (5224175567749775 / 2 ^ 55)) (Fin 100) = Fin (8162774324609023 / 2 ^ 49)"
    using rnd_eval [of 49 "5224175567749775 / 2 ^ 55 * 100" 8162774324609023] by simp
  have "\<lfloor>(8162774324609023 / 2 ^ 49 + 1 / 2 :: rat)\<rfloor> = 14" by (simp add: floor_eq_iff)
  then have "Math_round (Fin (8162774324609023 / 2 ^ 49)) = Fin 14"
    by (simp only: Math_round.simps of_int_numeral)
  then show ?thesis by (simp only: q p)
qed

lemma wide_total:
  "hundredths 360287986295767 = 33554433"
  "bytes_to_GB 360287986295767 = Fin (5764607866631619 / 2 ^ 34)"
  "rnd (of_int 33554433 / 100) = Fin (5764607694832927 / 2 ^ 34)"
proof -
  show "hundredths 360287986295767 = 33554433"
    by (simp add: hundredths_def floor_eq_iff)
  have m: "jmul (Fin (of_nat 360287986295767 / 2 ^ 30)) (Fin 100) = Fin (67108867 / 2)"
    using rnd_eval_tie [of 27 "360287986295767 / 2 ^ 30 * 100" 4503599828697087] by simp
  have "\<lfloor>(67108867 / 2 + 1 / 2 :: rat)\<rfloor> = 33554434" by (simp add: floor_eq_iff)
  then have r: "Math_round (Fin (67108867 / 2)) = Fin 33554434"
    by (simp only: Math_round.simps of_int_numeral)
  have d: "jdiv (Fin 33554434) (Fin 100) = Fin (5764607866631619 / 2 ^ 34)"
    using rnd_eval [of 34 "33554434 / 100" 5764607866631619] by simp
  have "(360287986295767 :: nat) < 2 ^ 53" by simp
  then show "bytes_to_GB 360287986295767 = Fin (5764607866631619 / 2 ^ 34)"
    unfolding bytes_to_GB_def by (simp only: div_1024_cubed m r d)
  show "rnd (of_int 33554433 / 100) = Fin (5764607694832927 / 2 ^ 34)"
    using rnd_eval [of 34 "33554433 / 100" 5764607694832927] by simp
qed

lemma wide_total_differs:
  "mem_total (getMemoryUsage 360287986295767 0)
     \<noteq> rnd (of_int (hundredths 360287986295767) / 100)"
  unfolding getMemoryUsage_def Let_def memory_usage.simps wide_total by simp

lemma usagePercent_small_total:
  assumes "t < 5368710" "f \<le> t"
  shows "usagePercent (getMemoryUsage t f) = NaN"
proof -
  have "bytes_to_GB t = Fin 0" using assms(1) by (rule bytes_to_GB_small)
  moreover have "bytes_to_GB f = Fin 0" using assms by (intro bytes_to_GB_small) simp
  ultimately show ?thesis
    unfolding getMemoryUsage_def Let_def
    by (simp only: used_of_zero percent_of_zero memory_usage.simps)
qed

text \<open>The claim as stated fails. With 16 GiB of memory and 14688788153 bytes free the
  rounded values are 16.00 and 13.68 GB, used over total times 100 is 14.5 and rounds
  to 15, but it is computed as 14.499999999999998 and \<open>usagePercent\<close> is 14. With
  5000000 bytes of memory the total rounds to 0 GB and \<open>usagePercent\<close> is NaN, no
  integer. With 360287986295767 bytes of memory (327.68 TiB) the product by 100 is
  rounded before \<open>Math.round\<close>, and total is 335544.34 GB where the byte count rounds to
  335544.33.\<close>

theorem getMemoryUsage_percent_tie_rounds_down:
  "hundredths 17179869184 = 1600 \<and> hundredths 14688788153 = 1368
   \<and> usedPercent_exact 17179869184 14688788153 = 29 / 2
   \<and> round_half_up (usedPercent_exact 17179869184 14688788153) = 15
   \<and> usagePercent (getMemoryUsage 17179869184 14688788153) = Fin 14
   \<and> usagePercent (getMemoryUsage 5000000 0) = NaN
   \<and> mem_total (getMemoryUsage 360287986295767 0)
       \<noteq> rnd (of_int (hundredths 360287986295767) / 100)"
proof -
  have e: "usedPercent_exact 17179869184 14688788153 = 29 / 2"
    by (simp add: usedPercent_exact_def hundredths_values)
  have r: "round_half_up (29 / 2) = 15" by (simp add: round_half_up_def floor_eq_iff)
  have p: "usagePercent (getMemoryUsage 17179869184 14688788153) = Fin 14"
    unfolding getMemoryUsage_def Let_def tie_GB tie_used memory_usage.simps by (rule tie_percent)
  have n: "usagePercent (getMemoryUsage 5000000 0) = NaN"
    by (rule usagePercent_small_total) simp_all
  show ?thesis unfolding e r by (simp only: hundredths_values p n wide_total_differs simp_thms)
qed

text \<open>
  C7, as amended. For every reading with \<open>free \<le> total\<close>, a total of at least 5368710
  bytes (the least that rounds to 0.01 GB) and below \<open>2 ^ 53\<close> bytes, used plus free
  differs from total by at most 0.01 and \<open>usagePercent\<close> is an integer in \<open>[0, 100]\<close>.
\<close>

theorem getMemoryUsage_consistent:
  assumes "free_bytes \<le> total_bytes" "5368710 \<le> total_bytes" "total_bytes < 2 ^ 53"
  shows "\<exists>T U F n.
       mem_total (getMemoryUsage total_bytes free_bytes) = Fin T
     \<and> mem_used (getMemoryUsage total_bytes free_bytes) = Fin U
     \<and> mem_free (getMemoryUsage total_bytes free_bytes) = Fin F
     \<and> \<bar>U + F - T\<bar> \<le> 1 / 100
     \<and> usagePercent (getMemoryUsage total_bytes free_bytes) = Fin (of_int n)
     \<and> 0 \<le> n \<and> n \<le> 100"
proof -
  obtain kf kt where k: "bytes_to_GB free_bytes = rnd (of_int kf / 100)"
      "bytes_to_GB total_bytes = rnd (of_int kt / 100)"
      "0 \<le> kf" "kf \<le> kt" "kt \<le> 2 ^ 30" "1 \<le> kt"
    using bytes_to_GB_pair [OF assms(1,3)] assms(2) by blast
  have bt: "\<bar>kt\<bar> \<le> 2 ^ 30" and bf: "\<bar>kf\<bar> \<le> 2 ^ 30" and bu: "\<bar>kt - kf\<bar> \<le> 2 ^ 30"
    using k(3-6) by simp_all
  obtain T where T: "rnd (of_int kt / 100) = Fin T" "\<bar>T - of_int kt / 100\<bar> \<le> 1 / 1048576"
    using rnd_hundredths [OF bt] by blast
  obtain F where F: "rnd (of_int kf / 100) = Fin F" "\<bar>F - of_int kf / 100\<bar> \<le> 1 / 1048576"
    using rnd_hundredths [OF bf] by blast
  have nn: "0 \<le> kt - kf" using k(4) by simp
  obtain U where U0: "rnd (of_int (kt - kf) / 100) = Fin U"
      "\<bar>U - of_int (kt - kf) / 100\<bar> \<le> 1 / 1048576" "0 \<le> kt - kf \<Longrightarrow> 0 \<le> U"
    using rnd_hundredths [OF bu] by blast
  have U: "rnd (of_int (kt - kf) / 100) = Fin U"
      "\<bar>U - of_int (kt - kf) / 100\<bar> \<le> 1 / 1048576" "0 \<le> U"
    using U0 nn by simp_all
  have u: "jdiv (Math_round (jmul (jsub (Fin T) (Fin F)) (Fin 100))) (Fin 100) = Fin U"
    using used_chain [OF bt bf T(1) F(1)] U(1) by simp
  have diff: "(of_int (kt - kf) :: rat) / 100 = of_int kt / 100 - of_int kf / 100"
    by (simp add: diff_divide_distrib)
  have tol: "\<bar>U + F - T\<bar> \<le> 1 / 100"
    using T(2) F(2) U(2) unfolding diff by linarith
  have "(of_int (kt - kf) :: rat) \<le> of_int kt" using k(3) by simp
  then have "(of_int (kt - kf) :: rat) / 100 \<le> of_int kt / 100" by (simp add: divide_right_mono)
  then have "jle (rnd (of_int (kt - kf) / 100)) (rnd (of_int kt / 100))" by (rule rnd_mono)
  then have UT: "U \<le> T" using U(1) T(1) by simp
  have "(of_int 1 :: rat) \<le> of_int kt" using k(6) by (simp only: of_int_le_iff)
  then have "(1 / 128 :: rat) \<le> of_int kt / 100" by simp
  then have "jle (rnd (1 / 128)) (rnd (of_int kt / 100))" by (rule rnd_mono)
  moreover have "rnd (1 / 128) = Fin (1 / 128)" using rnd_dyadic [of 1 7] by simp
  ultimately have Tpos: "0 < T" using T(1) by simp
  obtain n where n: "Math_round (jmul (jdiv (Fin U) (Fin T)) (Fin 100)) = Fin (of_int n)"
      "0 \<le> n" "n \<le> 100"
    using percent_int_range [OF Tpos U(3) UT] by blast
  have m: "getMemoryUsage total_bytes free_bytes
      = \<lparr> mem_total = Fin T, mem_used = Fin U, mem_free = Fin F, usagePercent = Fin (of_int n) \<rparr>"
    unfolding getMemoryUsage_def Let_def k(1,2) T(1) F(1) u n(1) ..
  show ?thesis
    unfolding m using tol n(2,3) by (intro exI [of _ T] exI [of _ U] exI [of _ F] exI [of _ n]) simp
qed

theorem getMemoryUsage_consistent_witness:
  "\<exists>T U F n.
       mem_total (getMemoryUsage (16 * 2 ^ 30) (4 * 2 ^ 30)) = Fin T
     \<and> mem_used (getMemoryUsage (16 * 2 ^ 30) (4 * 2 ^ 30)) = Fin U
     \<and> mem_free (getMemoryUsage (16 * 2 ^ 30) (4 * 2 ^ 30)) = Fin F
     \<and> \<bar>U + F - T\<bar> \<le> 1 / 100
     \<and> usagePercent (getMemoryUsage (16 * 2 ^ 30) (4 * 2 ^ 30)) = Fin (of_int n)
     \<and> 0 \<le> n \<and> n \<le> 100"
  using getMemoryUsage_consistent [of "4 * 2 ^ 30" "16 * 2 ^ 30"] by simp

text \<open>The claim as stated fails: a total of 4 MiB with 1 MiB free is a reading with a
  positive total and \<open>free \<le> total\<close>, and its \<open>usagePercent\<close> is NaN.\<close>

theorem getMemoryUsage_four_MiB_NaN:
  "(1048576 :: nat) \<le> 4194304 \<and> (0 :: nat) < 4194304
     \<and> usagePercent (getMemoryUsage 4194304 1048576) = NaN"
  by (simp add: usagePercent_small_total)

end
